theory Spec2Isabelle
  imports Main "HOL-Library.Word"
begin

unbundle bit_operations_syntax

section \<open>Python values and failures\<close>

text \<open>
  The script \<^verbatim>\<open>backend/scripts/convert-addresses.py\<close> works on Python integers
  (unbounded, modelled as \<^typ>\<open>int\<close>), on lists of integers, on \<^verbatim>\<open>bytes\<close> (lists of
  \<^typ>\<open>8 word\<close>) and on \<^verbatim>\<open>str\<close> (modelled as \<^typ>\<open>string\<close>, with \<^verbatim>\<open>ord\<close> the
  character's code, so the model covers code points below 256).
  A raised exception is the \<open>Inl\<close> of a sum; a call that does not return is \<open>None\<close>.
\<close>

datatype py_error = ValueError | IndexError | TypeError

text \<open>
  \<^verbatim>\<open>a << n\<close> and \<^verbatim>\<open>a >> n\<close>: Python raises ValueError on a negative shift count.
  Integers have no size limit here. CPython has one: a shift whose result is too large for
  the machine raises OverflowError or MemoryError, as \<^verbatim>\<open>1 << 10**30\<close> does. So the
  definitions are exact for the widths 8 and 5 that the script uses and for all small
  widths, and the theorems that say for which widths \<open>convertbits\<close> returns are stated for
  widths of at most 65536 bits.
\<close>

definition py_lshift :: "int \<Rightarrow> int \<Rightarrow> py_error + int" where
  "py_lshift a n = (if n < 0 then Inl ValueError else Inr (push_bit (nat n) a))"

definition py_rshift :: "int \<Rightarrow> int \<Rightarrow> py_error + int" where
  "py_rshift a n = (if n < 0 then Inl ValueError else Inr (drop_bit (nat n) a))"

definition ord :: "char \<Rightarrow> int" where
  "ord c = of_char c"

section \<open>The checksum\<close>

definition GEN :: "int list" where
  "GEN = [0x3b6a57b2, 0x26508e6d, 0x1ea119fa, 0x3d4233dd, 0x2a1462b3]"

text \<open>
  One round of the \<^verbatim>\<open>for value in values\<close> loop of \<^verbatim>\<open>bech32_polymod\<close>. The shift counts
  25, 5 and \<open>i\<close> (from \<^verbatim>\<open>range(5)\<close>) are never negative and \<open>i\<close> is a valid index of GEN.
\<close>

definition polymod_round :: "int \<Rightarrow> int \<Rightarrow> int" where
  "polymod_round chk v =
     (let b = drop_bit 25 chk;
          chk1 = push_bit 5 (chk AND 0x1ffffff) XOR v
      in foldl (\<lambda>c i. c XOR (if drop_bit i b AND 1 \<noteq> 0 then GEN ! i else 0)) chk1 [0..<5])"

definition bech32_polymod :: "int list \<Rightarrow> int" where
  "bech32_polymod values = foldl polymod_round 1 values"

definition bech32_hrp_expand :: "string \<Rightarrow> int list" where
  "bech32_hrp_expand hrp =
     map (\<lambda>x. drop_bit 5 (ord x)) hrp @ [0] @ map (\<lambda>x. ord x AND 31) hrp"

definition bech32_create_checksum :: "string \<Rightarrow> int list \<Rightarrow> int list" where
  "bech32_create_checksum hrp data =
     (let values = bech32_hrp_expand hrp @ data;
          polymod = bech32_polymod (values @ [0, 0, 0, 0, 0, 0]) XOR 1
      in map (\<lambda>i. drop_bit (5 * (5 - i)) polymod AND 31) [0..<6])"

subsection \<open>The reference procedure of the specification\<close>

text \<open>
  Written from the specification's section 4.2, to be compared with the code: the state
  starts at 1; for each value \<open>v\<close>, with \<open>b = state >> 25\<close>, the state becomes
  \<open>((state & 0x1ffffff) << 5) XOR v\<close>, and then each generator constant whose bit of
  \<open>b\<close> is set is XORed in.
\<close>

definition spec_generators :: "(nat \<times> int) list" where
  "spec_generators =
     [(0, 0x3b6a57b2), (1, 0x26508e6d), (2, 0x1ea119fa), (3, 0x3d4233dd), (4, 0x2a1462b3)]"

fun spec_xor_generators :: "int \<Rightarrow> (nat \<times> int) list \<Rightarrow> int \<Rightarrow> int" where
  "spec_xor_generators b [] state = state"
| "spec_xor_generators b ((k, g) # gs) state =
     spec_xor_generators b gs (if bit b k then state XOR g else state)"

fun spec_polymod_from :: "int \<Rightarrow> int list \<Rightarrow> int" where
  "spec_polymod_from state [] = state"
| "spec_polymod_from state (v # vs) =
     spec_polymod_from
       (spec_xor_generators (drop_bit 25 state) spec_generators
          (push_bit 5 (state AND 0x1ffffff) XOR v)) vs"

definition spec_expand :: "string \<Rightarrow> int list" where
  "spec_expand hrp =
     map (\<lambda>c. drop_bit 5 (of_char c)) hrp @ [0] @ map (\<lambda>c. of_char c AND 31) hrp"

definition spec_checksum :: "string \<Rightarrow> int list \<Rightarrow> int list" where
  "spec_checksum hrp payload =
     (let r = spec_polymod_from 1 (spec_expand hrp @ payload @ replicate 6 0) XOR 1
      in [drop_bit 25 r AND 31, drop_bit 20 r AND 31, drop_bit 15 r AND 31,
          drop_bit 10 r AND 31, drop_bit 5 r AND 31, r AND 31])"

section \<open>The bit-width converter\<close>

text \<open>
  The inner \<^verbatim>\<open>while bits >= tobits\<close> loop of \<^verbatim>\<open>convertbits\<close>. It does not end when
  \<open>tobits \<le> 0\<close>, so it is a partial function: \<open>None\<close> is a run that never returns.
\<close>

partial_function (option) convertbits_while ::
  "int \<Rightarrow> int \<Rightarrow> int \<Rightarrow> int \<Rightarrow> int list \<Rightarrow> (py_error + int \<times> int list) option" where
  "convertbits_while tobits maxv acc bits ret =
     (if bits \<ge> tobits then
        (case py_rshift acc (bits - tobits) of
           Inl e \<Rightarrow> Some (Inl e)
         | Inr x \<Rightarrow> convertbits_while tobits maxv acc (bits - tobits) (ret @ [x AND maxv]))
      else Some (Inr (bits, ret)))"

declare convertbits_while.simps [code]

text \<open>The \<^verbatim>\<open>for value in data\<close> loop, on the state \<open>(acc, bits, ret)\<close>.\<close>

fun convertbits_for ::
  "int \<Rightarrow> int \<Rightarrow> int \<Rightarrow> int \<Rightarrow> int list \<Rightarrow> int \<Rightarrow> int \<Rightarrow> int list
    \<Rightarrow> (py_error + int \<times> int \<times> int list) option" where
  "convertbits_for frombits tobits maxv max_acc [] acc bits ret = Some (Inr (acc, bits, ret))"
| "convertbits_for frombits tobits maxv max_acc (v # data) acc bits ret =
     (case py_lshift acc frombits of
        Inl e \<Rightarrow> Some (Inl e)
      | Inr shifted \<Rightarrow>
          (case convertbits_while tobits maxv ((shifted OR v) AND max_acc) (bits + frombits) ret of
             None \<Rightarrow> None
           | Some (Inl e) \<Rightarrow> Some (Inl e)
           | Some (Inr (bits', ret')) \<Rightarrow>
               convertbits_for frombits tobits maxv max_acc data
                 ((shifted OR v) AND max_acc) bits' ret'))"

text \<open>
  \<^verbatim>\<open>convertbits(data, frombits, tobits, pad)\<close>: \<open>Some (Inr (Some ret))\<close> is the returned
  list, \<open>Some (Inr None)\<close> the returned \<^verbatim>\<open>None\<close>, \<open>Some (Inl e)\<close> a raised exception.
\<close>

definition convertbits ::
  "int list \<Rightarrow> int \<Rightarrow> int \<Rightarrow> bool \<Rightarrow> (py_error + int list option) option" where
  "convertbits data frombits tobits pad =
     (case py_lshift 1 tobits of
        Inl e \<Rightarrow> Some (Inl e)
      | Inr p1 \<Rightarrow>
     (case py_lshift 1 (frombits + tobits - 1) of
        Inl e \<Rightarrow> Some (Inl e)
      | Inr p2 \<Rightarrow>
     (case convertbits_for frombits tobits (p1 - 1) (p2 - 1) data 0 0 [] of
        None \<Rightarrow> None
      | Some (Inl e) \<Rightarrow> Some (Inl e)
      | Some (Inr (acc, bits, ret)) \<Rightarrow>
          if pad then
            (if bits \<noteq> 0 then
               (case py_lshift acc (tobits - bits) of
                  Inl e \<Rightarrow> Some (Inl e)
                | Inr x \<Rightarrow> Some (Inr (Some (ret @ [x AND (p1 - 1)]))))
             else Some (Inr (Some ret)))
          else if bits \<ge> frombits then Some (Inr None)
          else
            (case py_lshift acc (tobits - bits) of
               Inl e \<Rightarrow> Some (Inl e)
             | Inr x \<Rightarrow>
                 if x AND (p1 - 1) \<noteq> 0 then Some (Inr None) else Some (Inr (Some ret))))))"

section \<open>The encoder\<close>

definition BECH32_CHARSET :: string where
  "BECH32_CHARSET = ''qpzry9x8gf2tvdw0s3jn54khce6mua7l''"

text \<open>\<^verbatim>\<open>s[i]\<close> on a string: a negative index counts from the end, out of range raises.\<close>

definition str_getitem :: "string \<Rightarrow> int \<Rightarrow> py_error + char" where
  "str_getitem s i =
     (if 0 \<le> i \<and> i < int (length s) then Inr (s ! nat i)
      else if - int (length s) \<le> i \<and> i < 0 then Inr (s ! nat (int (length s) + i))
      else Inl IndexError)"

text \<open>The comprehension \<^verbatim>\<open>[BECH32_CHARSET[d] for d in combined]\<close>.\<close>

fun charset_chars :: "int list \<Rightarrow> py_error + string" where
  "charset_chars [] = Inr []"
| "charset_chars (d # ds) =
     (case str_getitem BECH32_CHARSET d of
        Inl e \<Rightarrow> Inl e
      | Inr c \<Rightarrow> (case charset_chars ds of Inl e \<Rightarrow> Inl e | Inr cs \<Rightarrow> Inr (c # cs)))"

definition bech32_encode :: "string \<Rightarrow> int list \<Rightarrow> py_error + string" where
  "bech32_encode hrp data =
     (let combined = data @ bech32_create_checksum hrp data
      in case charset_chars combined of
           Inl e \<Rightarrow> Inl e
         | Inr cs \<Rightarrow> Inr (hrp @ ''1'' @ cs))"

section \<open>The address builder\<close>

text \<open>
  \<^verbatim>\<open>s.replace(old, new)\<close>: every occurrence of \<open>old\<close>, found from the left without
  overlap, is replaced.
\<close>

function str_replace :: "string \<Rightarrow> string \<Rightarrow> string \<Rightarrow> string" where
  "str_replace s old new =
     (if old = [] then new @ concat (map (\<lambda>c. c # new) s)
      else if s = [] then []
      else if take (length old) s = old then new @ str_replace (drop (length old) s) old new
      else hd s # str_replace (tl s) old new)"
  by pat_completeness auto
termination
  by (relation "measure (\<lambda>(s, old, new). length s)") auto

declare str_replace.simps [simp del]

text \<open>
  \<^verbatim>\<open>bytes.fromhex\<close> of the Python library: ASCII whitespace is skipped before each pair of
  hex digits; a character that is no hex digit where a digit is due, or a pair cut short by
  the end of the string, raises ValueError.
\<close>

definition hex_value :: "char \<Rightarrow> nat option" where
  "hex_value c =
     (let n = (of_char c :: nat)
      in if 48 \<le> n \<and> n \<le> 57 then Some (n - 48)
         else if 97 \<le> n \<and> n \<le> 102 then Some (n - 87)
         else if 65 \<le> n \<and> n \<le> 70 then Some (n - 55)
         else None)"

definition py_isspace :: "char \<Rightarrow> bool" where
  "py_isspace c =
     ((of_char c :: nat) = 32 \<or> (9 \<le> (of_char c :: nat) \<and> (of_char c :: nat) \<le> 13))"

function bytes_fromhex :: "string \<Rightarrow> py_error + 8 word list" where
  "bytes_fromhex s =
     (case dropWhile py_isspace s of
        [] \<Rightarrow> Inr []
      | [c] \<Rightarrow> Inl ValueError
      | c1 # c2 # rest \<Rightarrow>
          (case hex_value c1 of
             None \<Rightarrow> Inl ValueError
           | Some hi \<Rightarrow>
               (case hex_value c2 of
                  None \<Rightarrow> Inl ValueError
                | Some lo \<Rightarrow>
                    (case bytes_fromhex rest of
                       Inl e \<Rightarrow> Inl e
                     | Inr bs \<Rightarrow> Inr (of_nat (16 * hi + lo) # bs)))))"
  by pat_completeness auto
termination
proof (relation "measure length", goal_cases)
  case 1
  show ?case by simp
next
  case (2 s c1 list c2 rest hi lo)
  have "length (dropWhile py_isspace s) \<le> length s"
    by (rule length_dropWhile_le)
  with 2 show ?case by simp
qed

declare bytes_fromhex.simps [simp del]

definition script_hash_to_address :: "string \<Rightarrow> string \<Rightarrow> (py_error + string) option" where
  "script_hash_to_address script_hash network =
     (let hash_hex = str_replace script_hash ''0x'' []
      in case bytes_fromhex hash_hex of
           Inl e \<Rightarrow> Some (Inl e)
         | Inr hash_bytes \<Rightarrow>
             (let header_byte = (if network = ''mainnet'' then [0x71] else [0x70]);
                  address_bytes = header_byte @ hash_bytes;
                  address_data = map uint address_bytes
              in case convertbits address_data 8 5 True of
                   None \<Rightarrow> None
                 | Some (Inl e) \<Rightarrow> Some (Inl e)
                 | Some (Inr five_bit_data) \<Rightarrow>
                     (let prefix = (if network = ''mainnet'' then ''addr'' else ''addr_test'')
                      in case five_bit_data of
                           None \<Rightarrow> Some (Inl TypeError)
                         | Some d \<Rightarrow> Some (bech32_encode prefix d))))"

definition ESCROW_SCRIPT_HASH :: string where
  "ESCROW_SCRIPT_HASH = ''795b08f17216887d0fdd83dec60790a79fba0998ac9d76eb2c7ed80a''"

section \<open>Notions used in the proofs\<close>

text \<open>
  \<open>chunks w a r k\<close>: the \<open>k\<close> groups of \<open>w\<close> bits of \<open>a\<close> that lie above its lowest \<open>r\<close>
  bits, the most significant group first. \<open>value_of w a xs\<close>: the accumulator of
  \<^verbatim>\<open>convertbits\<close> without its mask, after the values \<open>xs\<close> of width \<open>w\<close> were shifted in.
\<close>

definition chunks :: "nat \<Rightarrow> int \<Rightarrow> nat \<Rightarrow> nat \<Rightarrow> int list" where
  "chunks w a r k = map (\<lambda>i. take_bit w (drop_bit (r + i * w) a)) (rev [0..<k])"

definition value_of :: "nat \<Rightarrow> int \<Rightarrow> int list \<Rightarrow> int" where
  "value_of w a xs = foldl (\<lambda>c v. push_bit w c OR v) a xs"

text \<open>
  For the decoding errors: \<open>contains_0x r\<close> says that the two characters \<open>0x\<close> occur
  somewhere in \<open>r\<close>, and \<open>decode_pairs r\<close> reads a string of hex digits two at a time, one
  byte for each pair.
\<close>

fun contains_0x :: "string \<Rightarrow> bool" where
  "contains_0x (a # b # rest) = ((a = CHR ''0'' \<and> b = CHR ''x'') \<or> contains_0x (b # rest))"
| "contains_0x _ = False"

fun decode_pairs :: "string \<Rightarrow> 8 word list" where
  "decode_pairs (c1 # c2 # rest) =
     (case (hex_value c1, hex_value c2) of
        (Some hi, Some lo) \<Rightarrow> of_nat (16 * hi + lo) # decode_pairs rest
      | _ \<Rightarrow> [])"
| "decode_pairs _ = []"

section \<open>Properties of the checksum\<close>

lemma bit_test_iff: "(drop_bit i (b::int) AND 1 \<noteq> 0) = bit b i"
  by (simp add: and_one_eq bit_iff_odd_drop_bit mod_2_eq_odd)

lemma replicate_6_zero: "replicate 6 (0::int) = [0, 0, 0, 0, 0, 0]"
  by (simp add: numeral_eq_Suc)

lemma upt_0_5: "[0..<5] = [0, 1, 2, 3, 4]"
  by code_simp

lemma upt_0_6: "[0..<6] = [0, 1, 2, 3, 4, 5]"
  by code_simp

lemma polymod_round_spec:
  "polymod_round chk v =
     spec_xor_generators (drop_bit 25 chk) spec_generators (push_bit 5 (chk AND 0x1ffffff) XOR v)"
  unfolding polymod_round_def spec_generators_def GEN_def Let_def upt_0_5 bit_test_iff
  by (simp del: push_bit_and)

lemma foldl_polymod_round_spec:
  "foldl polymod_round s vs = spec_polymod_from s vs"
  by (induction vs arbitrary: s) (simp_all add: polymod_round_spec)

lemma bech32_polymod_spec: "bech32_polymod vs = spec_polymod_from 1 vs"
  by (simp add: bech32_polymod_def foldl_polymod_round_spec)

lemma checksum_eq_spec: "bech32_create_checksum hrp data = spec_checksum hrp data"
  unfolding bech32_create_checksum_def spec_checksum_def bech32_polymod_spec
    bech32_hrp_expand_def spec_expand_def ord_def Let_def replicate_6_zero upt_0_6
  by simp

lemma and_31_range: "0 \<le> (x::int) AND 31 \<and> x AND 31 \<le> 31"
  by (simp add: AND_upper2')

text \<open>
  Claim C1. For every ASCII prefix (each character's code below 128) and every payload of
  5-bit symbols, \<open>bech32_create_checksum\<close> returns exactly six symbols, each in [0, 31],
  and they are the symbols the reference procedure of the specification computes.
\<close>

theorem C1_checksum_is_reference:
  assumes "\<forall>c \<in> set hrp. ord c < 128"
    and "\<forall>d \<in> set data. 0 \<le> d \<and> d \<le> 31"
  shows "bech32_create_checksum hrp data = spec_checksum hrp data
     \<and> length (bech32_create_checksum hrp data) = 6
     \<and> (\<forall>s \<in> set (bech32_create_checksum hrp data). 0 \<le> s \<and> s \<le> 31)"
proof -
  have eq: "bech32_create_checksum hrp data = spec_checksum hrp data"
    by (rule checksum_eq_spec)
  have len: "length (spec_checksum hrp data) = 6"
    by (simp add: spec_checksum_def Let_def)
  have rng: "\<forall>s \<in> set (spec_checksum hrp data). 0 \<le> s \<and> s \<le> 31"
    by (simp add: spec_checksum_def Let_def and_31_range)
  from eq len rng show ?thesis by simp
qed

theorem C1_checksum_is_reference_witness:
  "bech32_create_checksum ''addr'' [1, 2, 3] = spec_checksum ''addr'' [1, 2, 3]
     \<and> length (bech32_create_checksum ''addr'' [1, 2, 3]) = 6"
proof -
  have h1: "\<forall>c \<in> set ''addr''. ord c < 128" by (simp add: ord_def)
  have h2: "\<forall>d \<in> set [1, 2, 3 :: int]. 0 \<le> d \<and> d \<le> 31" by simp
  from C1_checksum_is_reference [OF h1 h2] show ?thesis by blast
qed

section \<open>Properties of the bit-width converter\<close>

lemma py_lshift_nat: "py_lshift a (int n) = Inr (push_bit n a)"
  by (simp add: py_lshift_def)

lemma py_rshift_nat: "py_rshift a (int n) = Inr (drop_bit n a)"
  by (simp add: py_rshift_def)

lemma while_closed:
  "0 < t \<Longrightarrow> r < t \<Longrightarrow>
   convertbits_while (int t) maxv acc (int (r + k * t)) ret =
     Some (Inr (int r, ret @ map (\<lambda>i. drop_bit (r + i * t) acc AND maxv) (rev [0..<k])))"
proof (induction k arbitrary: ret)
  case 0
  then show ?case by (subst convertbits_while.simps) simp
next
  case (Suc k)
  have e: "int (r + Suc k * t) - int t = int (r + k * t)" by simp
  have g: "int t \<le> int (r + Suc k * t)" by simp
  show ?case
    apply (subst convertbits_while.simps)
    apply (simp only: g if_True e py_rshift_nat sum.case Suc.IH [OF Suc.prems])
    apply simp
    done
qed

lemma while_closed_div:
  assumes "0 < t"
  shows "convertbits_while (int t) maxv acc (int b) ret =
     Some (Inr (int (b mod t), ret @ map (\<lambda>i. drop_bit (b mod t + i * t) acc AND maxv) (rev [0..<b div t])))"
proof -
  have "b = b mod t + (b div t) * t" by simp
  with while_closed [OF assms, of "b mod t" maxv acc "b div t" ret] assms show ?thesis
    by simp
qed

lemma for_total:
  "0 < t \<Longrightarrow> b < t \<Longrightarrow>
    \<exists>acc' b' ret'. convertbits_for (int f) (int t) maxv max_acc data acc (int b) ret
      = Some (Inr (acc', int b', ret')) \<and> b' < t"
proof (induction data arbitrary: acc b ret)
  case Nil
  then show ?case by simp
next
  case (Cons v data)
  have e: "int b + int f = int (b + f)" by simp
  have m: "(b + f) mod t < t" using Cons.prems(1) by simp
  show ?case
    apply (simp only: convertbits_for.simps py_lshift_nat sum.case e
        while_closed_div [OF Cons.prems(1)] option.case prod.case)
    apply (rule Cons.IH [OF Cons.prems(1) m])
    done
qed

lemma and_maxv_range: "0 \<le> maxv \<Longrightarrow> 0 \<le> (x::int) AND maxv \<and> x AND maxv \<le> maxv"
  by simp

lemma while_range_aux:
  assumes "convertbits_while t maxv acc bits ret = Some y"
  shows "0 \<le> maxv \<longrightarrow> (\<forall>x\<in>set ret. 0 \<le> x \<and> x \<le> maxv) \<longrightarrow>
     (case y of Inl e \<Rightarrow> True | Inr (b', ret') \<Rightarrow> \<forall>x\<in>set ret'. 0 \<le> x \<and> x \<le> maxv)"
proof (rule convertbits_while.raw_induct
    [where P = "\<lambda>t maxv acc bits ret y. 0 \<le> maxv \<longrightarrow> (\<forall>x\<in>set ret. 0 \<le> x \<and> x \<le> maxv) \<longrightarrow>
     (case y of Inl e \<Rightarrow> True | Inr (b', ret') \<Rightarrow> \<forall>x\<in>set ret'. 0 \<le> x \<and> x \<le> maxv)",
     OF _ assms], goal_cases)
  case (1 cw tobits maxv acc bits ret y)
  note ih = 1(1) and body = 1(2)
  show ?case
  proof (cases "tobits \<le> bits")
    case False
    with body show ?thesis by auto
  next
    case True
    show ?thesis
    proof (cases "py_rshift acc (bits - tobits)")
      case (Inl e)
      with True body show ?thesis by auto
    next
      case (Inr x)
      with True body have c: "cw tobits maxv acc (bits - tobits) (ret @ [x AND maxv]) = Some y"
        by simp
      from ih [OF c] show ?thesis
        by (auto simp: and_maxv_range)
    qed
  qed
qed

lemma while_range:
  "convertbits_while t maxv acc bits ret = Some (Inr (b', ret')) \<Longrightarrow> 0 \<le> maxv \<Longrightarrow>
     \<forall>x\<in>set ret. 0 \<le> x \<and> x \<le> maxv \<Longrightarrow> \<forall>x\<in>set ret'. 0 \<le> x \<and> x \<le> maxv"
  using while_range_aux [of t maxv acc bits ret "Inr (b', ret')"] by simp

lemma for_range:
  "convertbits_for f t maxv max_acc data acc bits ret = Some (Inr (acc', b', ret')) \<Longrightarrow> 0 \<le> maxv \<Longrightarrow>
     \<forall>x\<in>set ret. 0 \<le> x \<and> x \<le> maxv \<Longrightarrow> \<forall>x\<in>set ret'. 0 \<le> x \<and> x \<le> maxv"
proof (induction data arbitrary: acc bits ret)
  case Nil
  then show ?case by simp
next
  case (Cons v data)
  from Cons.prems(1) obtain sh b1 r1 where
    sh: "py_lshift acc f = Inr sh"
    and w: "convertbits_while t maxv ((sh OR v) AND max_acc) (bits + f) ret = Some (Inr (b1, r1))"
    and rest: "convertbits_for f t maxv max_acc data ((sh OR v) AND max_acc) b1 r1 = Some (Inr (acc', b', ret'))"
    by (auto split: sum.splits option.splits)
  from while_range [OF w Cons.prems(2) Cons.prems(3)]
  have "\<forall>x\<in>set r1. 0 \<le> x \<and> x \<le> maxv" .
  from Cons.IH [OF rest Cons.prems(2) this] show ?case .
qed

lemma convertbits_pad_range:
  assumes "convertbits data f t True = Some (Inr r)"
  shows "\<exists>ret. r = Some ret \<and> (\<forall>x\<in>set ret. 0 \<le> x \<and> x \<le> 2 ^ nat t - 1)"
proof -
  from assms have t0: "0 \<le> t"
    by (auto simp: convertbits_def py_lshift_def split: if_splits)
  then have p1: "py_lshift 1 t = Inr (2 ^ nat t)"
    by (simp add: py_lshift_def)
  define maxv :: int where "maxv = 2 ^ nat t - 1"
  have m0: "0 \<le> maxv" by (simp add: maxv_def)
  from assms p1 obtain p2 where p2: "py_lshift 1 (f + t - 1) = Inr p2"
    by (auto simp: convertbits_def split: sum.splits)
  from assms p1 p2 obtain acc bits ret where
    lp: "convertbits_for f t maxv (p2 - 1) data 0 0 [] = Some (Inr (acc, bits, ret))"
    by (auto simp: convertbits_def maxv_def split: sum.splits option.splits)
  from assms have fin: "(if bits \<noteq> 0 then
               (case py_lshift acc (t - bits) of
                  Inl e \<Rightarrow> Some (Inl e)
                | Inr x \<Rightarrow> Some (Inr (Some (ret @ [x AND maxv]))))
             else Some (Inr (Some ret))) = Some (Inr r)"
    unfolding convertbits_def p1 p2 maxv_def [symmetric] sum.case lp option.case prod.case
    by simp
  from for_range [OF lp m0] have rr: "\<forall>x\<in>set ret. 0 \<le> x \<and> x \<le> maxv" by simp
  from fin rr m0 show ?thesis
    unfolding maxv_def [symmetric]
    by (auto split: if_splits sum.splits simp: and_maxv_range)
qed

lemma py_lshift_nonneg: "0 \<le> n \<Longrightarrow> py_lshift a n = Inr (push_bit (nat n) a)"
  by (simp add: py_lshift_def)

lemma for_total_int:
  assumes "0 \<le> f" and "0 < t"
  shows "\<exists>acc bits ret. convertbits_for f t maxv max_acc data 0 0 [] = Some (Inr (acc, bits, ret))
      \<and> 0 \<le> bits \<and> bits < t"
proof -
  from assms have t': "0 < nat t" by simp
  from for_total [OF t' t', of "nat f" maxv max_acc data 0 "[]"] assms
  obtain acc b ret where
    "convertbits_for f t maxv max_acc data 0 0 [] = Some (Inr (acc, int b, ret))" and "b < nat t"
    by auto
  then show ?thesis by (intro exI [of _ acc] exI [of _ "int b"] exI [of _ ret]) auto
qed

lemma convertbits_pad_total:
  assumes "0 < f" and "0 < t"
  shows "\<exists>ret. convertbits data f t True = Some (Inr (Some ret))"
proof -
  from assms have f0: "0 \<le> f" by simp
  from for_total_int [OF f0 assms(2), of "2 ^ nat t - 1" "2 ^ nat (f + t - 1) - 1" data]
  obtain acc bits ret where
    lp: "convertbits_for f t (2 ^ nat t - 1) (2 ^ nat (f + t - 1) - 1) data 0 0 [] = Some (Inr (acc, bits, ret))"
    and b: "0 \<le> bits" "bits < t"
    by blast
  from assms have p1: "py_lshift 1 t = Inr (2 ^ nat t)"
    and p2: "py_lshift 1 (f + t - 1) = Inr (2 ^ nat (f + t - 1))"
    by (simp_all add: py_lshift_def)
  from b have p3: "py_lshift acc (t - bits) = Inr (push_bit (nat (t - bits)) acc)"
    by (simp add: py_lshift_def)
  show ?thesis
    unfolding convertbits_def p1 p2 sum.case lp option.case prod.case p3
    by simp
qed

lemma str_getitem_charset:
  "0 \<le> d \<Longrightarrow> d \<le> 31 \<Longrightarrow> str_getitem BECH32_CHARSET d = Inr (BECH32_CHARSET ! nat d)"
  by (simp add: str_getitem_def BECH32_CHARSET_def)

lemma charset_chars_in_range:
  "\<forall>d\<in>set ds. 0 \<le> d \<and> d \<le> 31 \<Longrightarrow>
     charset_chars ds = Inr (map (\<lambda>d. BECH32_CHARSET ! nat d) ds)"
  by (induction ds) (simp_all add: str_getitem_charset)

lemma checksum_range: "\<forall>s \<in> set (bech32_create_checksum hrp data). 0 \<le> s \<and> s \<le> 31"
  by (simp add: checksum_eq_spec spec_checksum_def Let_def and_31_range)

lemma bech32_encode_in_range:
  assumes "\<forall>d\<in>set data. 0 \<le> d \<and> d \<le> 31"
  shows "bech32_encode hrp data =
     Inr (hrp @ ''1'' @ map (\<lambda>d. BECH32_CHARSET ! nat d) (data @ bech32_create_checksum hrp data))"
proof -
  from assms checksum_range [of hrp data]
  have "\<forall>d\<in>set (data @ bech32_create_checksum hrp data). 0 \<le> d \<and> d \<le> 31" by auto
  from charset_chars_in_range [OF this] show ?thesis
    by (simp add: bech32_encode_def Let_def)
qed

lemma five_bit_data:
  "\<exists>d. convertbits xs 8 5 True = Some (Inr (Some d)) \<and> (\<forall>x\<in>set d. 0 \<le> x \<and> x \<le> 31)"
proof -
  from convertbits_pad_total [of 8 5 xs] obtain d where
    d: "convertbits xs 8 5 True = Some (Inr (Some d))" by auto
  from convertbits_pad_range [OF d] have "\<forall>x\<in>set d. 0 \<le> x \<and> x \<le> 31" by simp
  with d show ?thesis by blast
qed

text \<open>
  A positive \<open>tobits\<close> is needed for the converter to return: with \<open>tobits = 0\<close> the inner
  loop never ends on a non-empty input (its list grows without end).
\<close>

lemma while_zero_width_aux:
  assumes "convertbits_while t maxv acc bits ret = Some y"
  shows "\<not> (t = 0 \<and> 0 \<le> bits)"
proof (rule convertbits_while.raw_induct
    [where P = "\<lambda>t maxv acc bits ret y. \<not> (t = 0 \<and> 0 \<le> bits)", OF _ assms], goal_cases)
  case (1 cw tobits maxv acc bits ret y)
  show ?case
  proof
    assume z: "tobits = 0 \<and> 0 \<le> bits"
    then have "py_rshift acc (bits - tobits) = Inr (drop_bit (nat bits) acc)"
      by (simp add: py_rshift_def)
    with z 1(2) have "cw tobits maxv acc (bits - tobits) (ret @ [drop_bit (nat bits) acc AND maxv]) = Some y"
      by simp
    from 1(1) [OF this] z show False by simp
  qed
qed

lemma while_zero_width: "0 \<le> bits \<Longrightarrow> convertbits_while 0 maxv acc bits ret = None"
  using while_zero_width_aux [of 0 maxv acc bits ret] by (cases "convertbits_while 0 maxv acc bits ret") auto

lemma zero_tobits_never_returns:
  "0 < f \<Longrightarrow> f \<le> 65536 \<Longrightarrow> convertbits (v # data) f 0 pad = None"
  by (simp add: convertbits_def py_lshift_def while_zero_width)

text \<open>
  Claim C8. For every pair of bit widths \<open>frombits\<close> and \<open>tobits\<close> (positive, and at most
  65536 bits) and for either value of the pad flag, \<open>convertbits\<close> on the empty input
  returns the empty list: not \<open>None\<close>, and no exception.
\<close>

theorem C8_empty_input:
  assumes "0 < f" and "0 < t" and "f \<le> 65536" and "t \<le> 65536"
  shows "convertbits [] f t pad = Some (Inr (Some []))"
  using assms by (simp add: convertbits_def py_lshift_def)

theorem C8_empty_input_witness:
  "convertbits [] 8 5 True = Some (Inr (Some [])) \<and> convertbits [] 5 8 False = Some (Inr (Some []))"
  using C8_empty_input [of 8 5 True] C8_empty_input [of 5 8 False] by simp

section \<open>Properties of the address builder\<close>

lemma charset_members:
  "\<forall>d\<in>set ds. 0 \<le> d \<and> d \<le> 31 \<Longrightarrow>
     set (map (\<lambda>d. BECH32_CHARSET ! nat d) ds) \<subseteq> set BECH32_CHARSET"
proof -
  have "length BECH32_CHARSET = 32" by (simp add: BECH32_CHARSET_def)
  moreover assume "\<forall>d\<in>set ds. 0 \<le> d \<and> d \<le> 31"
  ultimately show ?thesis by (auto intro!: nth_mem)
qed

lemma bytes_fromhex_error: "bytes_fromhex s = Inl e \<Longrightarrow> e = ValueError"
proof (induction s arbitrary: e rule: bytes_fromhex.induct)
  case (1 s)
  from "1.prems" "1.IH" show ?case
    by (subst (asm) bytes_fromhex.simps) (auto split: list.splits option.splits sum.splits)
qed

lemma address_decoded:
  assumes "bytes_fromhex (str_replace s ''0x'' []) = Inr bs"
    and "convertbits (map uint ((if network = ''mainnet'' then 0x71 else 0x70) # bs)) 8 5 True
           = Some (Inr (Some payload))"
  shows "script_hash_to_address s network =
     Some (bech32_encode (if network = ''mainnet'' then ''addr'' else ''addr_test'') payload)"
  using assms by (cases "network = ''mainnet''") (simp_all add: script_hash_to_address_def Let_def)

lemma address_undecoded:
  assumes "bytes_fromhex (str_replace s ''0x'' []) = Inl e"
  shows "script_hash_to_address s network = Some (Inl e)"
  using assms by (simp add: script_hash_to_address_def Let_def)

text \<open>
  Claim C3. For every network selector and every input whose hex decoding succeeds, the
  address is prefix, \<open>1\<close>, and the characters of the payload symbols followed by the
  checksum symbols, each looked up in the alphabet; so it starts with \<open>addr1\<close> on mainnet
  and \<open>addr_test1\<close> otherwise, and all that follows the separator is in the alphabet.
\<close>

theorem C3_address_shape:
  assumes "bytes_fromhex (str_replace s ''0x'' []) = Inr bs"
  shows "\<exists>payload rest.
     convertbits (map uint ((if network = ''mainnet'' then 0x71 else 0x70) # bs)) 8 5 True
       = Some (Inr (Some payload))
     \<and> rest = map (\<lambda>d. BECH32_CHARSET ! nat d)
         (payload @ bech32_create_checksum (if network = ''mainnet'' then ''addr'' else ''addr_test'') payload)
     \<and> script_hash_to_address s network =
         Some (Inr ((if network = ''mainnet'' then ''addr'' else ''addr_test'') @ ''1'' @ rest))
     \<and> script_hash_to_address s network =
         Some (Inr ((if network = ''mainnet'' then ''addr1'' else ''addr_test1'') @ rest))
     \<and> set rest \<subseteq> set BECH32_CHARSET"
proof -
  define hrp where "hrp = (if network = ''mainnet'' then ''addr'' else ''addr_test'')"
  from five_bit_data [of "map uint ((if network = ''mainnet'' then 0x71 else 0x70) # bs)"]
  obtain payload where
    p: "convertbits (map uint ((if network = ''mainnet'' then 0x71 else 0x70) # bs)) 8 5 True
          = Some (Inr (Some payload))"
    and r: "\<forall>x\<in>set payload. 0 \<le> x \<and> x \<le> 31"
    by blast
  define rest where
    "rest = map (\<lambda>d. BECH32_CHARSET ! nat d) (payload @ bech32_create_checksum hrp payload)"
  from r checksum_range [of hrp payload]
  have "\<forall>d\<in>set (payload @ bech32_create_checksum hrp payload). 0 \<le> d \<and> d \<le> 31" by auto
  from charset_members [OF this] have m: "set rest \<subseteq> set BECH32_CHARSET"
    by (simp only: rest_def)
  have a: "script_hash_to_address s network = Some (Inr (hrp @ ''1'' @ rest))"
    using address_decoded [OF assms p] bech32_encode_in_range [OF r, of hrp]
    by (simp only: hrp_def rest_def)
  have b: "hrp @ ''1'' @ rest = (if network = ''mainnet'' then ''addr1'' else ''addr_test1'') @ rest"
    by (simp add: hrp_def)
  from p m a b show ?thesis
    unfolding hrp_def rest_def by (intro exI conjI) (assumption | simp only: refl)+
qed

theorem C3_address_shape_witness:
  "\<exists>payload rest.
     convertbits (map uint [0x70, 0x12, 0x34 :: 8 word]) 8 5 True = Some (Inr (Some payload))
     \<and> rest = map (\<lambda>d. BECH32_CHARSET ! nat d) (payload @ bech32_create_checksum ''addr_test'' payload)
     \<and> script_hash_to_address ''1234'' ''testnet'' = Some (Inr (''addr_test'' @ ''1'' @ rest))
     \<and> script_hash_to_address ''1234'' ''testnet'' = Some (Inr (''addr_test1'' @ rest))
     \<and> set rest \<subseteq> set BECH32_CHARSET"
proof -
  have h: "bytes_fromhex (str_replace ''1234'' ''0x'' []) = Inr [0x12, 0x34]"
    by code_simp
  from C3_address_shape [OF h, of "''testnet''"] show ?thesis by simp
qed

text \<open>
  Claim C5. The header byte is 0x71 and the prefix \<open>addr\<close> exactly when the network equals
  \<open>mainnet\<close>; every other value, recognised or not, gets 0x70 and \<open>addr_test\<close> and so the
  same result as \<open>testnet\<close>: the network is never rejected, and the only error of the
  builder is the decoding error of the hash.
\<close>

theorem C5_header_and_prefix:
  "(case bytes_fromhex (str_replace s ''0x'' []) of
      Inl e \<Rightarrow> script_hash_to_address s network = Some (Inl e)
    | Inr bs \<Rightarrow>
        (\<exists>payload.
           convertbits (map uint ((if network = ''mainnet'' then 0x71 else 0x70) # bs)) 8 5 True
             = Some (Inr (Some payload))
           \<and> script_hash_to_address s network =
               Some (bech32_encode (if network = ''mainnet'' then ''addr'' else ''addr_test'') payload)))
   \<and> (network \<noteq> ''mainnet'' \<longrightarrow>
        script_hash_to_address s network = script_hash_to_address s ''testnet'')"
proof (intro conjI impI)
  show "case bytes_fromhex (str_replace s ''0x'' []) of
      Inl e \<Rightarrow> script_hash_to_address s network = Some (Inl e)
    | Inr bs \<Rightarrow>
        (\<exists>payload.
           convertbits (map uint ((if network = ''mainnet'' then 0x71 else 0x70) # bs)) 8 5 True
             = Some (Inr (Some payload))
           \<and> script_hash_to_address s network =
               Some (bech32_encode (if network = ''mainnet'' then ''addr'' else ''addr_test'') payload))"
  proof (cases "bytes_fromhex (str_replace s ''0x'' [])")
    case (Inl e)
    with address_undecoded [OF Inl, of network] show ?thesis by simp
  next
    case (Inr bs)
    from five_bit_data [of "map uint ((if network = ''mainnet'' then 0x71 else 0x70) # bs)"]
    obtain payload where
      p: "convertbits (map uint ((if network = ''mainnet'' then 0x71 else 0x70) # bs)) 8 5 True
            = Some (Inr (Some payload))"
      by blast
    from address_decoded [OF Inr p] p Inr show ?thesis by auto
  qed
next
  assume "network \<noteq> ''mainnet''"
  then show "script_hash_to_address s network = script_hash_to_address s ''testnet''"
    by (simp add: script_hash_to_address_def)
qed

theorem C5_header_and_prefix_witness:
  "script_hash_to_address ''1234'' ''preview'' = script_hash_to_address ''1234'' ''testnet''"
  using C5_header_and_prefix [of "''1234''" "''preview''"] by simp

text \<open>
  The two calls of the script on the escrow hash: evaluated in the logic, each returns one
  fixed address.
\<close>

lemma escrow_addresses:
  "script_hash_to_address ESCROW_SCRIPT_HASH ''testnet'' =
       Some (Inr ''addr_test1wpu4kz83wgtgslg0mkpaa3s8jznelwsfnzkf6aht93ldszsfh7ty7'')
   \<and> script_hash_to_address ESCROW_SCRIPT_HASH ''mainnet'' =
       Some (Inr ''addr1w9u4kz83wgtgslg0mkpaa3s8jznelwsfnzkf6aht93ldszsjl2htm'')"
  by code_simp

text \<open>
  Claim C10. With \<open>pad = True\<close>, \<open>convertbits\<close> never returns \<open>None\<close>, and every element of
  a list it returns is in \<open>[0, 2 ^ tobits - 1]\<close>, whatever the input and the widths; with
  positive widths it always returns a list. So in the address builder the data handed to
  \<open>bech32_encode\<close> are values in [0, 31], the encoder returns a string, and no call of
  \<open>script_hash_to_address\<close> raises IndexError.
\<close>

theorem C10_padded_output_range:
  "(\<forall>r. convertbits data f t True = Some (Inr r) \<longrightarrow>
       (\<exists>ret. r = Some ret \<and> (\<forall>x\<in>set ret. 0 \<le> x \<and> x \<le> 2 ^ nat t - 1)))
   \<and> (0 < f \<and> 0 < t \<longrightarrow> (\<exists>ret. convertbits data f t True = Some (Inr (Some ret))))
   \<and> (\<forall>bs. bytes_fromhex (str_replace s ''0x'' []) = Inr bs \<longrightarrow>
       (\<exists>d a. convertbits (map uint ((if network = ''mainnet'' then 0x71 else 0x70) # bs)) 8 5 True
                = Some (Inr (Some d))
          \<and> (\<forall>x\<in>set d. 0 \<le> x \<and> x \<le> 31)
          \<and> bech32_encode (if network = ''mainnet'' then ''addr'' else ''addr_test'') d = Inr a
          \<and> script_hash_to_address s network = Some (Inr a)))
   \<and> script_hash_to_address s network \<noteq> Some (Inl IndexError)"
proof (intro conjI allI impI)
  fix r assume "convertbits data f t True = Some (Inr r)"
  then show "\<exists>ret. r = Some ret \<and> (\<forall>x\<in>set ret. 0 \<le> x \<and> x \<le> 2 ^ nat t - 1)"
    by (rule convertbits_pad_range)
next
  assume "0 < f \<and> 0 < t"
  then show "\<exists>ret. convertbits data f t True = Some (Inr (Some ret))"
    by (simp add: convertbits_pad_total)
next
  fix bs assume dec: "bytes_fromhex (str_replace s ''0x'' []) = Inr bs"
  from five_bit_data [of "map uint ((if network = ''mainnet'' then 0x71 else 0x70) # bs)"]
  obtain d where
    p: "convertbits (map uint ((if network = ''mainnet'' then 0x71 else 0x70) # bs)) 8 5 True
          = Some (Inr (Some d))"
    and r: "\<forall>x\<in>set d. 0 \<le> x \<and> x \<le> 31"
    by blast
  from address_decoded [OF dec p] bech32_encode_in_range [OF r] p r
  show "\<exists>d a. convertbits (map uint ((if network = ''mainnet'' then 0x71 else 0x70) # bs)) 8 5 True
                = Some (Inr (Some d))
          \<and> (\<forall>x\<in>set d. 0 \<le> x \<and> x \<le> 31)
          \<and> bech32_encode (if network = ''mainnet'' then ''addr'' else ''addr_test'') d = Inr a
          \<and> script_hash_to_address s network = Some (Inr a)"
    by (intro exI [of _ d]) simp
next
  show "script_hash_to_address s network \<noteq> Some (Inl IndexError)"
  proof (cases "bytes_fromhex (str_replace s ''0x'' [])")
    case (Inl e)
    have "e = ValueError" using Inl by (rule bytes_fromhex_error)
    with address_undecoded [OF Inl, of network] show ?thesis by simp
  next
    case (Inr bs)
    from five_bit_data [of "map uint ((if network = ''mainnet'' then 0x71 else 0x70) # bs)"]
    obtain d where
      p: "convertbits (map uint ((if network = ''mainnet'' then 0x71 else 0x70) # bs)) 8 5 True
            = Some (Inr (Some d))"
      and r: "\<forall>x\<in>set d. 0 \<le> x \<and> x \<le> 31"
      by blast
    from address_decoded [OF Inr p] bech32_encode_in_range [OF r] show ?thesis by simp
  qed
qed

theorem C10_padded_output_range_witness:
  "\<exists>ret. convertbits [255, 1] 8 5 True = Some (Inr (Some ret))"
  using C10_padded_output_range [of "[255, 1]" 8 5] by simp

section \<open>Error detection of the checksum\<close>

lemma xor_generators_shift:
  "spec_xor_generators b gs (x XOR v) = spec_xor_generators b gs x XOR v"
proof (induction gs arbitrary: x)
  case Nil
  show ?case by simp
next
  case (Cons p gs)
  obtain k g where p: "p = (k, g)" by (cases p)
  show ?case
  proof (cases "bit b k")
    case True
    have e: "(x XOR v) XOR g = (x XOR g) XOR v" by (simp add: ac_simps)
    have "spec_xor_generators b (p # gs) (x XOR v) = spec_xor_generators b gs ((x XOR g) XOR v)"
      by (simp only: p spec_xor_generators.simps True if_True e)
    also have "\<dots> = spec_xor_generators b gs (x XOR g) XOR v" by (rule Cons.IH)
    also have "spec_xor_generators b gs (x XOR g) = spec_xor_generators b (p # gs) x"
      by (simp only: p spec_xor_generators.simps True if_True)
    finally show ?thesis .
  next
    case False
    then show ?thesis by (simp add: p Cons.IH)
  qed
qed

lemma polymod_round_split: "polymod_round s v = polymod_round s 0 XOR v"
  by (simp add: polymod_round_spec xor_generators_shift)

lemma generators_low_distinct:
  "distinct (map (\<lambda>b. take_bit 5 (spec_xor_generators (int b) spec_generators 0)) [0..<32])"
  by code_simp

lemma generators_low_inj:
  assumes "0 \<le> b" "b < 32" "0 \<le> b'" "b' < 32"
    and "take_bit 5 (spec_xor_generators b spec_generators 0)
       = take_bit 5 (spec_xor_generators b' spec_generators 0)"
  shows "b = b'"
proof -
  have i: "inj_on (\<lambda>b. take_bit 5 (spec_xor_generators (int b) spec_generators 0)) (set [0..<32])"
    using generators_low_distinct by (simp only: distinct_map)
  have m: "nat b \<in> set [0..<32]" "nat b' \<in> set [0..<32]" using assms by auto
  have e: "take_bit 5 (spec_xor_generators (int (nat b)) spec_generators 0)
       = take_bit 5 (spec_xor_generators (int (nat b')) spec_generators 0)"
    using assms by simp
  from inj_onD [OF i e m] have "nat b = nat b'" .
  with assms show ?thesis by simp
qed

lemma polymod_round_0:
  "polymod_round s 0 =
     push_bit 5 (take_bit 25 s) XOR spec_xor_generators (drop_bit 25 s) spec_generators 0"
proof -
  have m: "s AND 0x1ffffff = take_bit 25 s"
    by (simp add: take_bit_eq_mask mask_eq_exp_minus_1)
  have "polymod_round s 0 = spec_xor_generators (drop_bit 25 s) spec_generators (0 XOR push_bit 5 (take_bit 25 s))"
    by (simp only: polymod_round_spec m xor.commute [of 0])  
  also have "\<dots> = spec_xor_generators (drop_bit 25 s) spec_generators 0 XOR push_bit 5 (take_bit 25 s)"
    by (rule xor_generators_shift)
  finally show ?thesis by (simp add: xor.commute)
qed

lemma take_bit_5_round:
  "take_bit 5 (polymod_round s 0) = take_bit 5 (spec_xor_generators (drop_bit 25 s) spec_generators 0)"
  by (simp add: polymod_round_0 take_bit_push_bit)

lemma xor_right_cancel:
  assumes "(a::int) XOR g = b XOR g"
  shows "a = b"
proof -
  have "a = (a XOR g) XOR g" by (simp add: xor.assoc)
  also have "\<dots> = (b XOR g) XOR g" by (simp only: assms)
  also have "\<dots> = b" by (simp add: xor.assoc)
  finally show ?thesis .
qed

lemma take_bit_5_range: "0 \<le> take_bit 5 (x::int) \<and> take_bit 5 x < 32"
  using take_bit_int_less_exp [of 5 x] by simp

lemma round_0_inj:
  assumes "take_bit 30 s = s" and "take_bit 30 s' = s'"
    and eq: "polymod_round s 0 = polymod_round s' 0"
  shows "s = s'"
proof -
  have r: "0 \<le> drop_bit 25 s \<and> drop_bit 25 s < 32" "0 \<le> drop_bit 25 s' \<and> drop_bit 25 s' < 32"
  proof -
    have "drop_bit 25 (take_bit 30 s) = take_bit 5 (drop_bit 25 s)"
      by (simp add: drop_bit_take_bit)
    with assms(1) have "drop_bit 25 s = take_bit 5 (drop_bit 25 s)" by simp
    then show "0 \<le> drop_bit 25 s \<and> drop_bit 25 s < 32"
      using take_bit_5_range [of "drop_bit 25 s"] by simp
    have "drop_bit 25 (take_bit 30 s') = take_bit 5 (drop_bit 25 s')"
      by (simp add: drop_bit_take_bit)
    with assms(2) have "drop_bit 25 s' = take_bit 5 (drop_bit 25 s')" by simp
    then show "0 \<le> drop_bit 25 s' \<and> drop_bit 25 s' < 32"
      using take_bit_5_range [of "drop_bit 25 s'"] by simp
  qed
  from eq have "take_bit 5 (polymod_round s 0) = take_bit 5 (polymod_round s' 0)" by simp
  then have "take_bit 5 (spec_xor_generators (drop_bit 25 s) spec_generators 0)
     = take_bit 5 (spec_xor_generators (drop_bit 25 s') spec_generators 0)"
    by (simp only: take_bit_5_round)
  then have d: "drop_bit 25 s = drop_bit 25 s'"
    using r by (rule_tac generators_low_inj) simp_all
  from eq have "push_bit 5 (take_bit 25 s) XOR spec_xor_generators (drop_bit 25 s') spec_generators 0
      = push_bit 5 (take_bit 25 s') XOR spec_xor_generators (drop_bit 25 s') spec_generators 0"
    by (simp only: polymod_round_0 d)
  then have "push_bit 5 (take_bit 25 s) = push_bit 5 (take_bit 25 s')"
    by (rule xor_right_cancel)
  then have "drop_bit 5 (push_bit 5 (take_bit 25 s)) = drop_bit 5 (push_bit 5 (take_bit 25 s'))"
    by (simp only:)
  then have t: "take_bit 25 s = take_bit 25 s'" by (simp add: drop_bit_push_bit)
  have "s = push_bit 25 (drop_bit 25 s) + take_bit 25 s" by (simp add: bits_ident)
  also have "\<dots> = push_bit 25 (drop_bit 25 s') + take_bit 25 s'" by (simp only: d t)
  also have "\<dots> = s'" by (simp add: bits_ident)
  finally show ?thesis .
qed

lemma round_inj:
  assumes "take_bit 30 s = s" and "take_bit 30 s' = s'"
    and "polymod_round s v = polymod_round s' v"
  shows "s = s'"
proof -
  from assms(3) have "polymod_round s 0 XOR v = polymod_round s' 0 XOR v"
    by (simp only: polymod_round_split [symmetric])
  then have "polymod_round s 0 = polymod_round s' 0" by (rule xor_right_cancel)
  with assms(1,2) show ?thesis by (rule round_0_inj)
qed

lemma generators_in_range:
  "take_bit 30 x = x \<Longrightarrow> take_bit 30 (spec_xor_generators b spec_generators x) = spec_xor_generators b spec_generators x"
  by (simp add: spec_generators_def take_bit_xor)

lemma round_in_range:
  assumes "0 \<le> v" and "v \<le> 31"
  shows "take_bit 30 (polymod_round s v) = polymod_round s v"
proof -
  have v: "take_bit 30 v = v" using assms by (simp add: take_bit_int_eq_self)
  have p: "take_bit 30 (push_bit 5 (take_bit 25 s)) = push_bit 5 (take_bit 25 s)"
    by (simp add: take_bit_push_bit)
  have g: "take_bit 30 (spec_xor_generators (drop_bit 25 s) spec_generators 0)
      = spec_xor_generators (drop_bit 25 s) spec_generators 0"
    by (rule generators_in_range) simp
  show ?thesis
    by (simp only: polymod_round_split [of s v] polymod_round_0 take_bit_xor v p g)
qed

lemma foldl_round_in_range:
  "take_bit 30 s = s \<Longrightarrow> \<forall>v\<in>set vs. 0 \<le> v \<and> v \<le> 31 \<Longrightarrow>
     take_bit 30 (foldl polymod_round s vs) = foldl polymod_round s vs"
  by (induction vs arbitrary: s) (simp_all add: round_in_range)

lemma foldl_round_inj:
  "take_bit 30 s = s \<Longrightarrow> take_bit 30 s' = s' \<Longrightarrow> \<forall>v\<in>set vs. 0 \<le> v \<and> v \<le> 31 \<Longrightarrow>
     foldl polymod_round s vs = foldl polymod_round s' vs \<Longrightarrow> s = s'"
proof (induction vs arbitrary: s s')
  case Nil
  then show ?case by simp
next
  case (Cons v vs)
  from Cons.prems(3) have v: "0 \<le> v" "v \<le> 31" and vs: "\<forall>v\<in>set vs. 0 \<le> v \<and> v \<le> 31"
    by simp_all
  from Cons.prems(4) have "foldl polymod_round (polymod_round s v) vs
      = foldl polymod_round (polymod_round s' v) vs" by simp
  from Cons.IH [OF round_in_range [OF v] round_in_range [OF v] vs this]
  have "polymod_round s v = polymod_round s' v" .
  with Cons.prems(1,2) show ?case by (rule round_inj)
qed

lemma polymod_mutation:
  assumes xs: "\<forall>v\<in>set xs. 0 \<le> v \<and> v \<le> 31" and ys: "\<forall>v\<in>set ys. 0 \<le> v \<and> v \<le> 31"
    and a: "0 \<le> a" "a \<le> 31" and b: "0 \<le> b" "b \<le> 31" and ne: "a \<noteq> b"
  shows "bech32_polymod (xs @ a # ys) \<noteq> bech32_polymod (xs @ b # ys)"
proof
  assume eq: "bech32_polymod (xs @ a # ys) = bech32_polymod (xs @ b # ys)"
  define s where "s = foldl polymod_round 1 xs"
  from eq have "foldl polymod_round (polymod_round s a) ys = foldl polymod_round (polymod_round s b) ys"
    by (simp add: bech32_polymod_def s_def)
  from foldl_round_inj [OF round_in_range [OF a] round_in_range [OF b] ys this]
  have "polymod_round s a = polymod_round s b" .
  then have "polymod_round s 0 XOR a = polymod_round s 0 XOR b"
    by (simp only: polymod_round_split [symmetric])
  then have "a XOR polymod_round s 0 = b XOR polymod_round s 0"
    by (simp only: xor.commute)
  then have "a = b" by (rule xor_right_cancel)
  with ne show False by simp
qed

lemma slice_bit:
  assumes "take_bit 5 (drop_bit k x) = take_bit 5 (drop_bit k (y::int))"
    and "k \<le> n" and "n < k + 5"
  shows "bit x n = bit y n"
proof -
  from assms(1) have "bit (take_bit 5 (drop_bit k x)) (n - k) = bit (take_bit 5 (drop_bit k y)) (n - k)"
    by simp
  moreover from assms(2,3) have "n - k < 5" by linarith
  ultimately show ?thesis
    using assms(2) by (simp add: bit_take_bit_iff bit_drop_bit_eq)
qed

lemma symbols_inj:
  assumes x: "take_bit 30 x = x" and y: "take_bit 30 y = (y::int)"
    and eq: "map (\<lambda>i. drop_bit (5 * (5 - i)) x AND 31) [0..<6]
           = map (\<lambda>i. drop_bit (5 * (5 - i)) y AND 31) [0..<6]"
  shows "x = y"
proof (rule bit_eqI)
  fix n
  have m: "\<And>z::int. z AND 31 = take_bit 5 z"
    by (simp add: take_bit_eq_mask mask_eq_exp_minus_1)
  from eq have e: "take_bit 5 (drop_bit 25 x) = take_bit 5 (drop_bit 25 y)"
    "take_bit 5 (drop_bit 20 x) = take_bit 5 (drop_bit 20 y)"
    "take_bit 5 (drop_bit 15 x) = take_bit 5 (drop_bit 15 y)"
    "take_bit 5 (drop_bit 10 x) = take_bit 5 (drop_bit 10 y)"
    "take_bit 5 (drop_bit 5 x) = take_bit 5 (drop_bit 5 y)"
    "take_bit 5 (drop_bit 0 x) = take_bit 5 (drop_bit 0 y)"
    unfolding upt_0_6 m by simp_all
  have hi: "30 \<le> n \<Longrightarrow> bit x n = bit y n"
  proof -
    assume "30 \<le> n"
    then have "\<not> bit (take_bit 30 x) n" "\<not> bit (take_bit 30 y) n"
      by (simp_all add: bit_take_bit_iff)
    with x y show ?thesis by simp
  qed
  consider "n < 5" | "5 \<le> n \<and> n < 10" | "10 \<le> n \<and> n < 15" | "15 \<le> n \<and> n < 20"
    | "20 \<le> n \<and> n < 25" | "25 \<le> n \<and> n < 30" | "30 \<le> n"
    by linarith
  then show "bit x n = bit y n"
  proof cases
    case 1 then show ?thesis using slice_bit [OF e(6), of n] by simp
  next
    case 2 then show ?thesis using slice_bit [OF e(5), of n] by simp
  next
    case 3 then show ?thesis using slice_bit [OF e(4), of n] by simp
  next
    case 4 then show ?thesis using slice_bit [OF e(3), of n] by simp
  next
    case 5 then show ?thesis using slice_bit [OF e(2), of n] by simp
  next
    case 6 then show ?thesis using slice_bit [OF e(1), of n] by simp
  next
    case 7 then show ?thesis by (rule hi)
  qed
qed

lemma hrp_expand_range:
  "\<forall>c\<in>set hrp. ord c < 128 \<Longrightarrow> \<forall>v\<in>set (bech32_hrp_expand hrp). 0 \<le> v \<and> v \<le> 31"
proof -
  assume a: "\<forall>c\<in>set hrp. ord c < 128"
  have "\<And>c. c \<in> set hrp \<Longrightarrow> 0 \<le> drop_bit 5 (ord c) \<and> drop_bit 5 (ord c) \<le> 31"
  proof -
    fix c assume "c \<in> set hrp"
    with a have "ord c < 128" by simp
    moreover have "ord c = int (of_char c)"
      unfolding ord_def by (rule of_nat_of_char [symmetric])
    then have "0 \<le> ord c" by simp
    ultimately have "0 \<le> ord c div 32 \<and> ord c div 32 \<le> 31" by linarith
    then show "0 \<le> drop_bit 5 (ord c) \<and> drop_bit 5 (ord c) \<le> 31"
      by (simp add: drop_bit_eq_div)
  qed
  then show ?thesis
    by (auto simp: bech32_hrp_expand_def and_31_range)
qed

lemma checksum_polymod_inj:
  assumes a: "\<forall>v\<in>set xs. 0 \<le> v \<and> v \<le> 31" and b: "\<forall>v\<in>set ys. 0 \<le> v \<and> v \<le> 31"
    and eq: "map (\<lambda>i. drop_bit (5 * (5 - i)) (bech32_polymod xs XOR 1) AND 31) [0..<6]
           = map (\<lambda>i. drop_bit (5 * (5 - i)) (bech32_polymod ys XOR 1) AND 31) [0..<6]"
  shows "bech32_polymod xs = bech32_polymod ys"
proof -
  have one: "take_bit 30 (1::int) = 1" by simp
  have x: "take_bit 30 (bech32_polymod xs) = bech32_polymod xs"
    unfolding bech32_polymod_def by (rule foldl_round_in_range [OF one a])
  have y: "take_bit 30 (bech32_polymod ys) = bech32_polymod ys"
    unfolding bech32_polymod_def by (rule foldl_round_in_range [OF one b])
  have x1: "take_bit 30 (bech32_polymod xs XOR 1) = bech32_polymod xs XOR 1"
    by (simp only: take_bit_xor x one)
  have y1: "take_bit 30 (bech32_polymod ys XOR 1) = bech32_polymod ys XOR 1"
    by (simp only: take_bit_xor y one)
  from symbols_inj [OF x1 y1 eq] show ?thesis by (rule xor_right_cancel)
qed

text \<open>
  Claim C7. For an ASCII prefix and a payload of 5-bit symbols, replacing the symbol at any
  index by a different 5-bit value changes the checksum: the polymod round is injective
  on 30-bit states (the low five bits of its result determine the five bits shifted out),
  so a difference in one round is never lost in the later rounds, and the six symbols
  determine the 30-bit result.
\<close>

theorem C7_single_symbol_mutation:
  assumes hrp: "\<forall>c\<in>set hrp. ord c < 128"
    and data: "\<forall>d\<in>set data. 0 \<le> d \<and> d \<le> 31"
    and i: "i < length data"
    and v: "0 \<le> v" "v \<le> 31"
    and ne: "v \<noteq> data ! i"
  shows "bech32_create_checksum hrp (data[i := v]) \<noteq> bech32_create_checksum hrp data"
proof
  assume eq: "bech32_create_checksum hrp (data[i := v]) = bech32_create_checksum hrp data"
  define pre where "pre = bech32_hrp_expand hrp @ take i data"
  define post where "post = drop (Suc i) data @ [0, 0, 0, 0, 0, 0 :: int]"
  have old: "bech32_hrp_expand hrp @ data @ [0, 0, 0, 0, 0, 0] = pre @ data ! i # post"
    using i by (simp add: pre_def post_def id_take_nth_drop [symmetric])
  have new: "bech32_hrp_expand hrp @ data[i := v] @ [0, 0, 0, 0, 0, 0] = pre @ v # post"
    using i by (simp add: pre_def post_def upd_conv_take_nth_drop)
  have di: "0 \<le> data ! i" "data ! i \<le> 31" using data i by simp_all
  have pre: "\<forall>x\<in>set pre. 0 \<le> x \<and> x \<le> 31"
    using hrp_expand_range [OF hrp] data by (auto simp: pre_def dest: in_set_takeD)
  have post: "\<forall>x\<in>set post. 0 \<le> x \<and> x \<le> 31"
    using data by (auto simp: post_def dest: in_set_dropD)
  have r1: "\<forall>x\<in>set (pre @ v # post). 0 \<le> x \<and> x \<le> 31" using pre post v by auto
  have r2: "\<forall>x\<in>set (pre @ data ! i # post). 0 \<le> x \<and> x \<le> 31" using pre post di by auto
  from eq have "map (\<lambda>k. drop_bit (5 * (5 - k)) (bech32_polymod (pre @ v # post) XOR 1) AND 31) [0..<6]
      = map (\<lambda>k. drop_bit (5 * (5 - k)) (bech32_polymod (pre @ data ! i # post) XOR 1) AND 31) [0..<6]"
    unfolding bech32_create_checksum_def Let_def append_assoc old new .
  from checksum_polymod_inj [OF r1 r2 this]
  have "bech32_polymod (pre @ v # post) = bech32_polymod (pre @ data ! i # post)" .
  with polymod_mutation [OF pre post v di ne] show False by simp
qed

theorem C7_single_symbol_mutation_witness:
  "bech32_create_checksum ''addr'' ([1, 2, 3][1 := 5]) \<noteq> bech32_create_checksum ''addr'' [1, 2, 3]"
  using C7_single_symbol_mutation [of "''addr''" "[1, 2, 3]" 1 5] by (simp add: ord_def)

section \<open>The round trip of the bit-width converter\<close>

lemma and_exp_minus_1: "(x::int) AND (2 ^ n - 1) = take_bit n x"
  by (simp add: take_bit_eq_mask mask_eq_exp_minus_1)

lemma acc_masked_step:
  "take_bit n (push_bit f (take_bit n a) OR v) = take_bit n (push_bit f a OR (v::int))"
  by (rule bit_eqI) (auto simp: bit_take_bit_iff bit_or_iff bit_push_bit_iff)

lemma take_drop_take:
  "j + t \<le> n \<Longrightarrow> take_bit t (drop_bit j (take_bit n x)) = take_bit t (drop_bit j (x::int))"
  by (rule bit_eqI) (auto simp: bit_take_bit_iff bit_drop_bit_eq)

lemma take_push_take:
  "t \<le> n + p \<Longrightarrow> take_bit t (push_bit p (take_bit n x)) = take_bit t (push_bit p (x::int))"
  by (rule bit_eqI) (auto simp: bit_take_bit_iff bit_push_bit_iff)

lemma drop_shifted_in:
  assumes "0 \<le> v" and "v < 2 ^ f"
  shows "drop_bit f (push_bit f a OR v) = (a::int)"
proof -
  from assms have "take_bit f v = v" by (simp add: take_bit_int_eq_self)
  then have "drop_bit f v = 0"
    by (metis drop_bit_take_bit drop_bit_of_0 diff_self_eq_0 take_bit_0)
  then show ?thesis by (simp add: drop_bit_or drop_bit_push_bit)
qed

lemma chunks_0: "chunks w a r 0 = []"
  by (simp add: chunks_def)

lemma chunks_drop: "chunks w (drop_bit d a) r k = chunks w a (d + r) k"
proof -
  have "\<And>i. drop_bit (r + i * w) (drop_bit d a) = drop_bit (d + r + i * w) a"
    by (simp add: drop_bit_drop_bit ac_simps)
  then show ?thesis by (simp only: chunks_def)
qed

lemma chunks_append:
  "chunks w a r (k1 + k2) = chunks w a (r + k2 * w) k1 @ chunks w a r k2"
proof -
  have u: "[0..<k1 + k2] = [0..<k2] @ map (\<lambda>i. i + k2) [0..<k1]"
    by (simp only: map_add_upt add.commute [of k1 k2] upt_add_eq_append [OF le0])
  have e: "\<And>i. r + (i + k2) * w = r + k2 * w + i * w"
    by (simp add: algebra_simps)
  show ?thesis
    by (simp only: chunks_def u rev_append map_append rev_map map_map o_def e)
qed

lemma chunks_push:
  "d \<le> r \<Longrightarrow> chunks w (push_bit d a) r k = chunks w a (r - d) k"
  by (simp add: chunks_def drop_bit_push_bit)

lemma chunks_masked:
  "r + k * w \<le> n \<Longrightarrow> chunks w (take_bit n a) r k = chunks w a r k"
proof -
  assume a: "r + k * w \<le> n"
  have "\<And>i. i < k \<Longrightarrow> r + i * w + w \<le> n"
  proof -
    fix i assume "i < k"
    then have "Suc i \<le> k" by simp
    then have "Suc i * w \<le> k * w" by (rule mult_le_mono1)
    with a show "r + i * w + w \<le> n" by simp
  qed
  then show ?thesis
    by (simp add: chunks_def take_drop_take)
qed

lemma chunks_range: "\<forall>x\<in>set (chunks w a r k). 0 \<le> x \<and> x < 2 ^ w"
  by (simp add: chunks_def)

lemma while_chunks:
  assumes "0 < t"
  shows "convertbits_while (int t) (2 ^ t - 1) acc (int b) ret =
     Some (Inr (int (b mod t), ret @ chunks t acc (b mod t) (b div t)))"
  by (simp only: while_closed_div [OF assms] chunks_def and_exp_minus_1)

lemma split_bits:
  fixes L f t :: nat
  assumes "0 < t"
  shows "(L mod t + f) mod t = (L + f) mod t"
    and "L div t + (L mod t + f) div t = (L + f) div t"
    and "(L + f) mod t + ((L mod t + f) div t) * t = L mod t + f"
proof -
  show m: "(L mod t + f) mod t = (L + f) mod t" by (simp add: mod_add_left_eq)
  have aux: "\<And>x q. (x + q * t) div t = x div t + q" using assms by simp
  have e: "L + f = (L mod t + f) + (L div t) * t" by simp
  have "(L + f) div t = (L mod t + f) div t + L div t"
    by (subst e) (rule aux)
  then show "L div t + (L mod t + f) div t = (L + f) div t" by simp
  have "(L mod t + f) mod t + ((L mod t + f) div t) * t = L mod t + f" by simp
  then show "(L + f) mod t + ((L mod t + f) div t) * t = L mod t + f" by (simp only: m)
qed

lemma value_step:
  assumes t: "0 < t" and v: "0 \<le> v" "v < 2 ^ f"
  shows "convertbits_while (int t) (2 ^ t - 1) (take_bit (f + t - 1) (push_bit f a OR v))
      (int (L mod t + f)) (chunks t a (L mod t) (L div t)) =
     Some (Inr (int ((L + f) mod t),
       chunks t (push_bit f a OR v) ((L + f) mod t) ((L + f) div t)))"
proof -
  define a' where "a' = push_bit f a OR v"
  define k2 where "k2 = (L mod t + f) div t"
  note sb = split_bits [OF t, of L f]
  have le: "(L + f) mod t + k2 * t \<le> f + t - 1"
  proof -
    have "L mod t < t" using t by simp
    then show ?thesis unfolding k2_def sb(3) by simp
  qed
  have new: "chunks t (take_bit (f + t - 1) a') ((L + f) mod t) k2 = chunks t a' ((L + f) mod t) k2"
    using le by (rule chunks_masked)
  have "chunks t a (L mod t) (L div t) = chunks t (drop_bit f a') (L mod t) (L div t)"
    by (simp only: a'_def drop_shifted_in [OF v])
  also have "\<dots> = chunks t a' (f + L mod t) (L div t)" by (rule chunks_drop)
  also have "f + L mod t = (L + f) mod t + k2 * t" unfolding k2_def sb(3) by simp
  finally have old: "chunks t a (L mod t) (L div t) = chunks t a' ((L + f) mod t + k2 * t) (L div t)" .
  have "chunks t a (L mod t) (L div t) @ chunks t (take_bit (f + t - 1) a') ((L + f) mod t) k2
      = chunks t a' ((L + f) mod t) (L div t + k2)"
    by (simp only: new old chunks_append)
  also have "L div t + k2 = (L + f) div t" unfolding k2_def by (rule sb(2))
  finally show ?thesis
    unfolding a'_def [symmetric]
    by (simp only: while_chunks [OF t] sb(1) k2_def [symmetric] sb(2))
qed

lemma for_chunks:
  assumes t: "0 < t"
  shows "\<forall>v\<in>set data. 0 \<le> v \<and> v < 2 ^ f \<Longrightarrow>
     convertbits_for (int f) (int t) (2 ^ t - 1) (2 ^ (f + t - 1) - 1) data
       (take_bit (f + t - 1) a) (int (L mod t)) (chunks t a (L mod t) (L div t)) =
     Some (Inr (take_bit (f + t - 1) (value_of f a data),
       int ((L + f * length data) mod t),
       chunks t (value_of f a data) ((L + f * length data) mod t) ((L + f * length data) div t)))"
proof (induction data arbitrary: a L)
  case Nil
  show ?case by (simp add: value_of_def)
next
  case (Cons v data)
  from Cons.prems have v: "0 \<le> v" "v < 2 ^ f" and rest: "\<forall>v\<in>set data. 0 \<le> v \<and> v < 2 ^ f"
    by simp_all
  have acc: "(push_bit f (take_bit (f + t - 1) a) OR v) AND (2 ^ (f + t - 1) - 1)
      = take_bit (f + t - 1) (push_bit f a OR v)"
    by (simp only: and_exp_minus_1 acc_masked_step)
  have bits: "int (L mod t) + int f = int (L mod t + f)" by simp
  have len: "L + f + f * length data = L + f * length (v # data)" by simp
  have val: "value_of f (push_bit f a OR v) data = value_of f a (v # data)"
    by (simp add: value_of_def)
  show ?case
    by (simp only: convertbits_for.simps py_lshift_nat sum.case acc bits
        value_step [OF t v] option.case prod.case Cons.IH [OF rest] len val)
qed

lemma value_of_snoc: "value_of w a (xs @ [x]) = push_bit w (value_of w a xs) OR x"
  by (simp add: value_of_def)

lemma value_of_range:
  "\<forall>x\<in>set xs. 0 \<le> x \<and> x < 2 ^ w \<Longrightarrow>
     take_bit (w * length xs) (value_of w 0 xs) = value_of w 0 xs"
proof (induction xs rule: rev_induct)
  case Nil
  show ?case by (simp add: value_of_def)
next
  case (snoc x xs)
  then have ih: "take_bit (w * length xs) (value_of w 0 xs) = value_of w 0 xs"
    and x: "take_bit w x = x"
    by (simp_all add: take_bit_int_eq_self)
  have "take_bit (w * length (xs @ [x])) (push_bit w (value_of w 0 xs) OR take_bit w x)
      = push_bit w (take_bit (w * length xs) (value_of w 0 xs)) OR take_bit w x"
    by (rule bit_eqI) (auto simp: bit_take_bit_iff bit_or_iff bit_push_bit_iff)
  then show ?case by (simp only: value_of_snoc ih x)
qed

lemma chunks_Suc_low:
  "chunks w a r (Suc k) = chunks w a (r + w) k @ [take_bit w (drop_bit r a)]"
  using chunks_append [of w a r k 1] by (simp add: chunks_def)

lemma chunks_value_of:
  "\<forall>x\<in>set xs. 0 \<le> x \<and> x < 2 ^ w \<Longrightarrow> chunks w (value_of w 0 xs) 0 (length xs) = xs"
proof (induction xs rule: rev_induct)
  case Nil
  show ?case by (simp add: chunks_0)
next
  case (snoc x xs)
  then have ih: "chunks w (value_of w 0 xs) 0 (length xs) = xs"
    and x: "0 \<le> x" "x < 2 ^ w"
    by simp_all
  from x have tx: "take_bit w x = x" by (simp add: take_bit_int_eq_self)
  have low: "take_bit w (push_bit w (value_of w 0 xs) OR x) = x"
    by (simp add: take_bit_or take_bit_push_bit tx)
  have "chunks w (push_bit w (value_of w 0 xs) OR x) (0 + w) (length xs)
      = chunks w (drop_bit w (push_bit w (value_of w 0 xs) OR x)) 0 (length xs)"
    by (simp only: chunks_drop add_0_right add_0_left)
  also have "\<dots> = xs" by (simp only: drop_shifted_in [OF x] ih)
  finally have hi: "chunks w (push_bit w (value_of w 0 xs) OR x) (0 + w) (length xs) = xs" .
  from hi low show ?case
    by (simp add: value_of_snoc chunks_Suc_low)
qed

lemma value_of_chunks:
  "value_of w a (chunks w x 0 m) = push_bit (w * m) a OR take_bit (w * m) x"
proof (induction m arbitrary: a)
  case 0
  show ?case by (simp add: chunks_0 value_of_def)
next
  case (Suc m)
  have c: "chunks w x 0 (Suc m) = take_bit w (drop_bit (m * w) x) # chunks w x 0 m"
    by (simp add: chunks_def)
  have "value_of w a (chunks w x 0 (Suc m))
      = value_of w (push_bit w a OR take_bit w (drop_bit (m * w) x)) (chunks w x 0 m)"
    by (simp add: c value_of_def)
  also have "\<dots> = push_bit (w * m) (push_bit w a OR take_bit w (drop_bit (m * w) x))
      OR take_bit (w * m) x"
    by (rule Suc.IH)
  also have "\<dots> = push_bit (w * Suc m) a OR take_bit (w * Suc m) x"
    by (rule bit_eqI)
      (auto simp: bit_take_bit_iff bit_or_iff bit_push_bit_iff bit_drop_bit_eq ac_simps)
  finally show ?case .
qed

lemma loops_chunks:
  assumes t: "0 < t" and fit: "\<forall>v\<in>set data. 0 \<le> v \<and> v < 2 ^ f"
  shows "convertbits_for (int f) (int t) (2 ^ t - 1) (2 ^ (f + t - 1) - 1) data 0 0 [] =
     Some (Inr (take_bit (f + t - 1) (value_of f 0 data),
       int ((f * length data) mod t),
       chunks t (value_of f 0 data) ((f * length data) mod t) ((f * length data) div t)))"
  using for_chunks [OF t fit, of 0 0] by (simp add: chunks_0)

lemma widths:
  assumes "0 < t"
  shows "py_lshift 1 (int t) = Inr (2 ^ t)"
    and "py_lshift 1 (int f + int t - 1) = Inr (2 ^ (f + t - 1))"
proof -
  show "py_lshift 1 (int t) = Inr (2 ^ t)" by (simp add: py_lshift_nat)
  from assms have "int f + int t - 1 = int (f + t - 1)" by simp
  then show "py_lshift 1 (int f + int t - 1) = Inr (2 ^ (f + t - 1))"
    by (simp only: py_lshift_nat) simp
qed

lemma convertbits_nopad_chunks:
  assumes t: "0 < t" and fit: "\<forall>v\<in>set data. 0 \<le> v \<and> v < 2 ^ f"
  shows "convertbits data (int f) (int t) False =
     Some (Inr (if f \<le> (f * length data) mod t
                  \<or> take_bit t (push_bit (t - (f * length data) mod t)
                        (take_bit (f + t - 1) (value_of f 0 data))) \<noteq> 0
                then None
                else Some (chunks t (value_of f 0 data) ((f * length data) mod t)
                       ((f * length data) div t))))"
proof -
  have r: "(f * length data) mod t < t" using t by simp
  then have d: "int t - int ((f * length data) mod t) = int (t - (f * length data) mod t)"
    by simp
  show ?thesis
    apply (simp only: convertbits_def widths [OF t] sum.case)
    apply (simp only: loops_chunks [OF t fit] option.case sum.case prod.case d)
    apply (simp only: py_lshift_nat and_exp_minus_1 sum.case)
    apply simp
    done
qed

lemma convertbits_pad_chunks:
  assumes t: "0 < t" and fit: "\<forall>v\<in>set data. 0 \<le> v \<and> v < 2 ^ f"
  shows "convertbits data (int f) (int t) True =
     Some (Inr (Some (chunks t
       (push_bit ((t - (f * length data) mod t) mod t) (value_of f 0 data)) 0
       ((f * length data + (t - (f * length data) mod t) mod t) div t))))"
proof -
  define L where "L = f * length data"
  define a where "a = value_of f 0 data"
  have r: "L mod t < t" using t by simp
  then have d: "int t - int (L mod t) = int (t - L mod t)" by simp
  have step: "convertbits data (int f) (int t) True =
     Some (Inr (Some (if L mod t \<noteq> 0
        then chunks t a (L mod t) (L div t) @ [take_bit t (push_bit (t - L mod t) (take_bit (f + t - 1) a))]
        else chunks t a (L mod t) (L div t))))"
    apply (simp only: convertbits_def widths [OF t] sum.case)
    apply (simp only: loops_chunks [OF t fit] option.case sum.case prod.case)
    apply (simp only: L_def [symmetric] a_def [symmetric] d)
    apply (simp only: py_lshift_nat and_exp_minus_1 sum.case)
    apply simp
    done
  show ?thesis
  proof (cases "L mod t = 0")
    case True
    then have "(t - L mod t) mod t = 0" by simp
    with True step show ?thesis
      unfolding L_def [symmetric] a_def [symmetric] by simp
  next
    case False
    define p where "p = t - L mod t"
    from False r have p: "p mod t = p" "0 < p" "p \<le> t" "t - p = L mod t"
      by (simp_all add: p_def)
    have m: "(L + p) div t = Suc (L div t)"
    proof -
      have "L div t * t + L mod t = L" by simp
      with r have "L + p = L div t * t + t" unfolding p_def by linarith
      then have "(L + p) div t = (t + L div t * t) div t" by (simp add: add.commute)
      also have "\<dots> = Suc (L div t)" using t by simp
      finally show ?thesis .
    qed
    have low: "take_bit t (push_bit p (take_bit (f + t - 1) a)) = take_bit t (drop_bit 0 (push_bit p a))"
      using p(2) by (simp add: take_push_take)
    have hi: "chunks t a (L mod t) (L div t) = chunks t (push_bit p a) (0 + t) (L div t)"
      using p(3,4) by (simp add: chunks_push)
    have "chunks t a (L mod t) (L div t) @ [take_bit t (push_bit p (take_bit (f + t - 1) a))]
        = chunks t (push_bit p a) 0 (Suc (L div t))"
      by (simp only: low hi chunks_Suc_low)
    with False step show ?thesis
      unfolding L_def [symmetric] a_def [symmetric] p_def [symmetric] p(1) m by simp
  qed
qed

lemma chunks_length: "length (chunks w a r k) = k"
  by (simp add: chunks_def)

lemma pad_bits_zero:
  "take_bit 8 (push_bit (8 - p) (take_bit 12 (push_bit p (a::int)))) = 0"
  by (rule bit_eqI) (auto simp: bit_take_bit_iff bit_push_bit_iff)

lemma pad_arith:
  fixes n :: nat
  defines "p \<equiv> (5 - (8 * n) mod 5) mod 5"
  shows "5 * ((8 * n + p) div 5) = 8 * n + p" and "p < 5"
    and "(8 * n + p) mod 8 = p" and "(8 * n + p) div 8 = n"
proof -
  define q where "q = (8 * n) div 5"
  define r where "r = (8 * n) mod 5"
  have e: "8 * n = 5 * q + r" unfolding q_def r_def by simp
  have r: "r < 5" unfolding r_def by simp
  have p: "p = (if r = 0 then 0 else 5 - r)"
    unfolding p_def r_def [symmetric] using r by simp
  show p5: "p < 5" using p r by (simp split: if_splits)
  have "8 * n + p = 5 * (if r = 0 then q else Suc q)"
    using e p r by (simp split: if_splits)
  then have "(8 * n + p) div 5 = (if r = 0 then q else Suc q)" by simp
  then show "5 * ((8 * n + p) div 5) = 8 * n + p"
    using e p r by (simp split: if_splits)
  show "(8 * n + p) mod 8 = p" using p5 by simp
  show "(8 * n + p) div 8 = n" using p5 by simp
qed

text \<open>
  Claim C2. For every list \<open>B\<close> of bytes, converting 8 to 5 bits with padding returns a list
  \<open>S\<close> of 5-bit symbols holding the \<open>8 * length B\<close> bits of \<open>B\<close> followed by fewer than five
  zero padding bits, and converting \<open>S\<close> back from 5 to 8 bits without padding succeeds and
  returns \<open>B\<close>.
\<close>

theorem C2_roundtrip:
  assumes bytes: "\<forall>b\<in>set B. 0 \<le> b \<and> b \<le> 255"
  shows "\<exists>S. convertbits B 8 5 True = Some (Inr (Some S))
     \<and> (\<forall>x\<in>set S. 0 \<le> x \<and> x \<le> 31)
     \<and> 5 * length S = 8 * length B + (5 - (8 * length B) mod 5) mod 5
     \<and> convertbits S 5 8 False = Some (Inr (Some B))"
proof -
  define n where "n = length B"
  define p where "p = (5 - (8 * n) mod 5) mod 5"
  define m where "m = (8 * n + p) div 5"
  define a where "a = value_of 8 0 B"
  define S where "S = chunks 5 (push_bit p a) 0 m"
  note ar = pad_arith [of n, folded p_def]
  have fit8: "\<forall>v\<in>set B. 0 \<le> v \<and> v < 2 ^ 8" using bytes by auto
  have fit5: "\<forall>v\<in>set S. 0 \<le> v \<and> v < 2 ^ 5" unfolding S_def by (rule chunks_range)
  have first: "convertbits B 8 5 True = Some (Inr (Some S))"
    using convertbits_pad_chunks [of 5 B 8, OF _ fit8]
    by (simp add: S_def a_def m_def p_def n_def)
  have len: "length S = m" by (simp add: S_def chunks_length)
  have m5: "5 * m = 8 * n + p" unfolding m_def by (rule ar(1))
  have a_small: "take_bit (8 * n) a = a"
    unfolding a_def n_def using fit8 by (rule value_of_range)
  have val: "value_of 5 0 S = push_bit p a"
  proof -
    have "value_of 5 0 S = take_bit (5 * m) (push_bit p a)"
      by (simp add: S_def value_of_chunks)
    also have "\<dots> = take_bit (p + 8 * n) (push_bit p a)" by (simp only: m5 add.commute)
    also have "\<dots> = push_bit p (take_bit (8 * n) a)" by (simp add: take_bit_push_bit)
    finally show ?thesis by (simp only: a_small)
  qed
  have md: "(5 * length S) mod 8 = p" "(5 * length S) div 8 = n"
    by (simp_all only: len m5 ar(3,4))
  have restored: "chunks 8 (push_bit p a) p n = B"
  proof -
    have "chunks 8 (push_bit p a) p n = chunks 8 a (p - p) n" by (rule chunks_push) simp
    also have "\<dots> = B" unfolding a_def n_def using chunks_value_of [OF fit8] by simp
    finally show ?thesis .
  qed
  have second: "convertbits S 5 8 False = Some (Inr (Some B))"
    using convertbits_nopad_chunks [of 8 S 5, OF _ fit5] ar(2)
    by (simp add: md val pad_bits_zero restored)
  have rng: "\<forall>x\<in>set S. 0 \<le> x \<and> x \<le> 31" using fit5 by auto
  have "5 * length S = 8 * length B + (5 - (8 * length B) mod 5) mod 5"
    by (simp only: len m5 p_def n_def)
  with first rng second show ?thesis
    by (intro exI [of _ S] conjI)
qed

theorem C2_roundtrip_witness:
  "\<exists>S. convertbits [255, 1] 8 5 True = Some (Inr (Some S))
     \<and> convertbits S 5 8 False = Some (Inr (Some [255, 1]))"
proof -
  have h: "\<forall>b\<in>set [255, 1 :: int]. 0 \<le> b \<and> b \<le> 255" by simp
  from C2_roundtrip [OF h] show ?thesis by blast
qed

section \<open>The sentinel of the bit-width converter\<close>

lemma leftover_masked:
  assumes "r < t"
  shows "take_bit t (push_bit (t - r) (take_bit (f + t - 1) a)) = push_bit (t - r) (take_bit r (a::int))"
proof -
  from assms have m: "t - (t - r) = r" and le: "min r (f + t - 1) = r" by simp_all
  show ?thesis by (simp only: take_bit_push_bit m take_bit_take_bit le)
qed

lemma push_bit_zero_iff: "push_bit k (x::int) = 0 \<longleftrightarrow> x = 0"
  by (simp add: push_bit_eq_mult)

text \<open>
  Claim C6. Let \<open>frombits = f\<close> and \<open>tobits = t\<close> be bit widths of at most 65536 bits, \<open>t\<close>
  positive, and let every element of the input fit in \<open>f\<close> bits. Then, when all input is
  processed, the accumulator holds under its mask the value of the whole input, the
  number of leftover bits is \<open>(f * length data) mod t\<close>, and the list built so far is the
  groups of \<open>t\<close> bits of the input above the leftover bits. The masked value that the code
  tests is the leftover bits of the input, shifted up. With \<open>pad = False\<close> the call returns
  (it does not raise) the sentinel \<open>None\<close> exactly when the number of leftover bits is at
  least \<open>f\<close> or the leftover bits are not zero, and otherwise it returns the converted list.
\<close>

theorem C6_nopad_sentinel:
  assumes t: "0 < t" and small: "f \<le> 65536" "t \<le> 65536"
    and fit: "\<forall>v\<in>set data. 0 \<le> v \<and> v < 2 ^ f"
  shows "convertbits_for (int f) (int t) (2 ^ t - 1) (2 ^ (f + t - 1) - 1) data 0 0 [] =
       Some (Inr (take_bit (f + t - 1) (value_of f 0 data),
         int ((f * length data) mod t),
         chunks t (value_of f 0 data) ((f * length data) mod t) ((f * length data) div t)))
     \<and> push_bit (t - (f * length data) mod t) (take_bit (f + t - 1) (value_of f 0 data)) AND (2 ^ t - 1)
         = push_bit (t - (f * length data) mod t) (take_bit ((f * length data) mod t) (value_of f 0 data))
     \<and> convertbits data (int f) (int t) False =
       Some (Inr (if f \<le> (f * length data) mod t
                    \<or> take_bit ((f * length data) mod t) (value_of f 0 data) \<noteq> 0
                  then None
                  else Some (chunks t (value_of f 0 data) ((f * length data) mod t)
                         ((f * length data) div t))))"
proof -
  have r: "(f * length data) mod t < t" using t by simp
  note lm = leftover_masked [OF r, of f "value_of f 0 data"]
  have "convertbits data (int f) (int t) False =
       Some (Inr (if f \<le> (f * length data) mod t
                    \<or> take_bit ((f * length data) mod t) (value_of f 0 data) \<noteq> 0
                  then None
                  else Some (chunks t (value_of f 0 data) ((f * length data) mod t)
                         ((f * length data) div t))))"
    by (simp only: convertbits_nopad_chunks [OF t fit] lm push_bit_zero_iff)
  with loops_chunks [OF t fit] lm show ?thesis
    by (simp only: and_exp_minus_1 simp_thms)
qed

theorem C6_nopad_sentinel_witness:
  "convertbits [1] 5 8 False = Some (Inr None)
   \<and> convertbits [31, 28, 0, 17] 5 8 False = Some (Inr None)
   \<and> convertbits [31, 28, 0, 16] 5 8 False = Some (Inr (Some [255, 1]))"
proof -
  have w: "(0::nat) < 8" "(5::nat) \<le> 65536" "(8::nat) \<le> 65536" by simp_all
  have f1: "\<forall>v\<in>set [1::int]. 0 \<le> v \<and> v < 2 ^ 5" by simp
  have f2: "\<forall>v\<in>set [31, 28, 0, 17::int]. 0 \<le> v \<and> v < 2 ^ 5" by simp
  have f3: "\<forall>v\<in>set [31, 28, 0, 16::int]. 0 \<le> v \<and> v < 2 ^ 5" by simp
  have u: "[0..<2] = [0, 1]" by code_simp
  from C6_nopad_sentinel [OF w f1]
  have 1: "convertbits [1] 5 8 False = Some (Inr None)" by simp
  from C6_nopad_sentinel [OF w f2]
  have 2: "convertbits [31, 28, 0, 17] 5 8 False = Some (Inr None)"
    by (simp add: value_of_def)
  from C6_nopad_sentinel [OF w f3]
  have 3: "convertbits [31, 28, 0, 16] 5 8 False = Some (Inr (Some [255, 1]))"
    by (simp add: value_of_def chunks_def u)
  from 1 2 3 show ?thesis by simp
qed

section \<open>Decoding errors of the address builder\<close>

lemma replace_without_0x: "\<not> contains_0x r \<Longrightarrow> str_replace r ''0x'' [] = r"
proof (induction r rule: contains_0x.induct)
  case (1 a b rest)
  then have n: "\<not> (a = CHR ''0'' \<and> b = CHR ''x'')" and r: "\<not> contains_0x (b # rest)"
    by simp_all
  have "str_replace (a # b # rest) ''0x'' [] = a # str_replace (b # rest) ''0x'' []"
    using n by (subst str_replace.simps) auto
  with 1(1) [OF r] show ?case by simp
qed (subst str_replace.simps, simp add: str_replace.simps [of "[]"])+

lemma replace_leading_0x: "str_replace (''0x'' @ r) ''0x'' [] = str_replace r ''0x'' []"
  by (subst str_replace.simps) simp

lemma hex_not_space: "hex_value c = Some n \<Longrightarrow> \<not> py_isspace c"
  by (auto simp: hex_value_def py_isspace_def Let_def split: if_splits)

lemma in_dropWhile: "c \<in> set r \<Longrightarrow> \<not> P c \<Longrightarrow> c \<in> set (dropWhile P r)"
  by (induction r) auto

lemma filter_dropWhile: "filter (\<lambda>c. \<not> P c) (dropWhile P r) = filter (\<lambda>c. \<not> P c) r"
  by (induction r) auto

lemma fromhex_bad_char:
  "\<exists>c\<in>set r. \<not> py_isspace c \<and> hex_value c = None \<Longrightarrow> bytes_fromhex r = Inl ValueError"
proof (induction r rule: bytes_fromhex.induct)
  case (1 s)
  from "1.prems" obtain c where c: "c \<in> set s" "\<not> py_isspace c" "hex_value c = None" by blast
  then have cd: "c \<in> set (dropWhile py_isspace s)" by (simp add: in_dropWhile)
  show ?case
  proof (cases "dropWhile py_isspace s")
    case Nil
    with cd show ?thesis by simp
  next
    case (Cons c1 t)
    note outer = Cons
    show ?thesis
    proof (cases t)
      case Nil
      with outer show ?thesis by (subst bytes_fromhex.simps) simp
    next
      case (Cons c2 rest)
      note inner = Cons
      from inner outer have d: "dropWhile py_isspace s = c1 # c2 # rest" by simp
      show ?thesis
      proof (cases "hex_value c1")
        case None
        with d show ?thesis by (subst bytes_fromhex.simps) simp
      next
        case (Some hi)
        note h1 = Some
        show ?thesis
        proof (cases "hex_value c2")
          case None
          with d h1 show ?thesis by (subst bytes_fromhex.simps) simp
        next
          case (Some lo)
          from cd d c(3) h1 Some have "c \<in> set rest" by auto
          with c have "\<exists>c\<in>set rest. \<not> py_isspace c \<and> hex_value c = None" by blast
          from "1.IH" [OF outer inner h1 Some this] d h1 Some show ?thesis
            by (subst bytes_fromhex.simps) simp
        qed
      qed
    qed
  qed
qed

lemma hd_dropWhile_not: "dropWhile P s = c # t \<Longrightarrow> \<not> P c"
  using hd_dropWhile [of P s] by auto

lemma fromhex_odd:
  "odd (length (filter (\<lambda>c. \<not> py_isspace c) r)) \<Longrightarrow> bytes_fromhex r = Inl ValueError"
proof (induction r rule: bytes_fromhex.induct)
  case (1 s)
  have f: "filter (\<lambda>c. \<not> py_isspace c) (dropWhile py_isspace s) = filter (\<lambda>c. \<not> py_isspace c) s"
    by (rule filter_dropWhile)
  show ?case
  proof (cases "dropWhile py_isspace s")
    case Nil
    with f "1.prems" show ?thesis by simp
  next
    case (Cons c1 t)
    note outer = Cons
    show ?thesis
    proof (cases t)
      case Nil
      with outer show ?thesis by (subst bytes_fromhex.simps) simp
    next
      case (Cons c2 rest)
      note inner = Cons
      from inner outer have d: "dropWhile py_isspace s = c1 # c2 # rest" by simp
      show ?thesis
      proof (cases "hex_value c1")
        case None
        with d show ?thesis by (subst bytes_fromhex.simps) simp
      next
        case (Some hi)
        note h1 = Some
        show ?thesis
        proof (cases "hex_value c2")
          case None
          with d h1 show ?thesis by (subst bytes_fromhex.simps) simp
        next
          case (Some lo)
          have "\<not> py_isspace c1" "\<not> py_isspace c2"
            using h1 Some by (simp_all add: hex_not_space)
          with f d have "filter (\<lambda>c. \<not> py_isspace c) s
              = c1 # c2 # filter (\<lambda>c. \<not> py_isspace c) rest" by simp
          with "1.prems" have "odd (length (filter (\<lambda>c. \<not> py_isspace c) rest))" by simp
          from "1.IH" [OF outer inner h1 Some this] d h1 Some show ?thesis
            by (subst bytes_fromhex.simps) simp
        qed
      qed
    qed
  qed
qed

lemma fromhex_pure:
  "even (length r) \<Longrightarrow> \<forall>c\<in>set r. hex_value c \<noteq> None \<Longrightarrow>
     bytes_fromhex r = Inr (decode_pairs r) \<and> 2 * length (decode_pairs r) = length r"
proof (induction r rule: decode_pairs.induct)
  case (1 c1 c2 rest)
  from "1.prems" obtain hi lo where h: "hex_value c1 = Some hi" "hex_value c2 = Some lo"
    by auto
  from h(1) have "\<not> py_isspace c1" by (rule hex_not_space)
  then have d: "dropWhile py_isspace (c1 # c2 # rest) = c1 # c2 # rest" by simp
  from "1.prems" have "even (length rest)" "\<forall>c\<in>set rest. hex_value c \<noteq> None" by simp_all
  from "1.IH" [OF refl h(1) h(2) this]
  have ih: "bytes_fromhex rest = Inr (decode_pairs rest)" "2 * length (decode_pairs rest) = length rest"
    by simp_all
  have "bytes_fromhex (c1 # c2 # rest) = Inr (of_nat (16 * hi + lo) # decode_pairs rest)"
    by (subst bytes_fromhex.simps) (simp only: d list.case h option.case ih(1) sum.case)
  with h ih(2) show ?case by simp
qed (subst bytes_fromhex.simps, simp)+

lemma address_returned:
  assumes "bytes_fromhex (str_replace s ''0x'' []) = Inr bs"
  shows "\<exists>a. script_hash_to_address s network = Some (Inr a)"
proof -
  from five_bit_data [of "map uint ((if network = ''mainnet'' then 0x71 else 0x70) # bs)"]
  obtain d where
    p: "convertbits (map uint ((if network = ''mainnet'' then 0x71 else 0x70) # bs)) 8 5 True
          = Some (Inr (Some d))"
    and r: "\<forall>x\<in>set d. 0 \<le> x \<and> x \<le> 31"
    by blast
  from address_decoded [OF assms p] bech32_encode_in_range [OF r] show ?thesis by simp
qed

text \<open>
  Claim C4, as amended. Let the input be \<open>r\<close>, or \<open>0x\<close> followed by \<open>r\<close>, where \<open>0x\<close> does not
  occur in \<open>r\<close>. Then the builder decodes exactly \<open>r\<close>, with \<^verbatim>\<open>bytes.fromhex\<close>, which skips
  ASCII whitespace before each pair of digits. It raises ValueError whenever \<open>r\<close> without
  its ASCII whitespace has odd length or \<open>r\<close> has a character that is neither a hex digit
  nor ASCII whitespace. When \<open>r\<close> is an even number of hex digits, every pair becomes one
  byte, nothing is dropped, and an address is returned. ValueError is the only exception
  the builder raises.
\<close>

theorem C4_decoding_errors:
  assumes "s = r \<or> s = ''0x'' @ r" and "\<not> contains_0x r"
  shows "str_replace s ''0x'' [] = r
     \<and> (odd (length (filter (\<lambda>c. \<not> py_isspace c) r))
          \<or> (\<exists>c\<in>set r. \<not> py_isspace c \<and> hex_value c = None)
        \<longrightarrow> script_hash_to_address s network = Some (Inl ValueError))
     \<and> (even (length r) \<and> (\<forall>c\<in>set r. hex_value c \<noteq> None)
        \<longrightarrow> bytes_fromhex r = Inr (decode_pairs r)
            \<and> 2 * length (decode_pairs r) = length r
            \<and> (\<exists>a. script_hash_to_address s network = Some (Inr a)))
     \<and> (\<forall>e. script_hash_to_address s network = Some (Inl e) \<longrightarrow> e = ValueError)"
proof -
  from assms have rep: "str_replace s ''0x'' [] = r"
    by (auto simp: replace_leading_0x replace_without_0x simp del: append.simps)
  have bad: "script_hash_to_address s network = Some (Inl ValueError)"
    if "odd (length (filter (\<lambda>c. \<not> py_isspace c) r))
          \<or> (\<exists>c\<in>set r. \<not> py_isspace c \<and> hex_value c = None)"
  proof -
    from that have "bytes_fromhex r = Inl ValueError"
      using fromhex_odd fromhex_bad_char by blast
    then show ?thesis using rep by (simp add: address_undecoded)
  qed
  have good: "bytes_fromhex r = Inr (decode_pairs r)
            \<and> 2 * length (decode_pairs r) = length r
            \<and> (\<exists>a. script_hash_to_address s network = Some (Inr a))"
    if "even (length r) \<and> (\<forall>c\<in>set r. hex_value c \<noteq> None)"
  proof -
    from that have d: "bytes_fromhex r = Inr (decode_pairs r)"
      and l: "2 * length (decode_pairs r) = length r"
      using fromhex_pure [of r] by simp_all
    from d rep have "bytes_fromhex (str_replace s ''0x'' []) = Inr (decode_pairs r)" by simp
    from address_returned [OF this] d l show ?thesis by simp
  qed
  have err: "e = ValueError" if "script_hash_to_address s network = Some (Inl e)" for e
  proof (cases "bytes_fromhex (str_replace s ''0x'' [])")
    case (Inl e')
    with that address_undecoded [OF Inl, of network] bytes_fromhex_error [OF Inl]
    show ?thesis by simp
  next
    case (Inr bs)
    from address_returned [OF Inr, of network] that show ?thesis by simp
  qed
  from rep bad good err show ?thesis by blast
qed

theorem C4_decoding_errors_witness:
  "str_replace ''0x1234'' ''0x'' [] = ''1234''
   \<and> bytes_fromhex ''1234'' = Inr (decode_pairs ''1234'')
   \<and> script_hash_to_address ''0x123'' ''testnet'' = Some (Inl ValueError)
   \<and> script_hash_to_address ''12g4'' ''testnet'' = Some (Inl ValueError)"
proof -
  have a: "\<not> contains_0x ''1234''" "\<not> contains_0x ''123''" "\<not> contains_0x ''12g4''"
    by simp_all
  have e: "even (length ''1234'') \<and> (\<forall>c\<in>set ''1234''. hex_value c \<noteq> None)"
    by (simp add: hex_value_def)
  have o: "odd (length (filter (\<lambda>c. \<not> py_isspace c) ''123''))
      \<or> (\<exists>c\<in>set ''123''. \<not> py_isspace c \<and> hex_value c = None)"
    by (simp add: py_isspace_def)
  have g: "odd (length (filter (\<lambda>c. \<not> py_isspace c) ''12g4''))
      \<or> (\<exists>c\<in>set ''12g4''. \<not> py_isspace c \<and> hex_value c = None)"
    by (simp add: py_isspace_def hex_value_def)
  from C4_decoding_errors [of "''0x1234''" "''1234''" "''testnet''", OF _ a(1)] e
  have 1: "str_replace ''0x1234'' ''0x'' [] = ''1234''"
    and 2: "bytes_fromhex ''1234'' = Inr (decode_pairs ''1234'')"
    by simp_all
  from C4_decoding_errors [of "''0x123''" "''123''" "''testnet''", OF _ a(2)] o
  have 3: "script_hash_to_address ''0x123'' ''testnet'' = Some (Inl ValueError)"
    by simp
  from C4_decoding_errors [of "''12g4''" "''12g4''" "''testnet''", OF _ a(3)] g
  have 4: "script_hash_to_address ''12g4'' ''testnet'' = Some (Inl ValueError)"
    by simp
  from 1 2 3 4 show ?thesis by simp
qed

text \<open>
  The claim as stated fails on whitespace: \<open>12 34\<close> has odd length and holds a character
  that is no hex digit, and the builder returns the address of the bytes 12 34.
\<close>

theorem C4_decoding_errors_counterexample:
  "str_replace ''12 34'' ''0x'' [] = ''12 34''
   \<and> odd (length ''12 34'')
   \<and> hex_value (CHR '' '') = None
   \<and> script_hash_to_address ''12 34'' ''testnet'' = Some (Inr ''addr_test1wqfrgcan6hu'')"
  by code_simp

text \<open>
  The code removes every occurrence of \<open>0x\<close>, not only a leading one (its comment speaks
  of a prefix): an input with \<open>0x\<close> in the middle is accepted as if it were not there.
\<close>

lemma inner_0x_removed:
  "str_replace ''120x34'' ''0x'' [] = ''1234''
   \<and> script_hash_to_address ''120x34'' ''testnet'' = script_hash_to_address ''1234'' ''testnet''
   \<and> script_hash_to_address ''120x34'' ''testnet'' = Some (Inr ''addr_test1wqfrgcan6hu'')"
  by code_simp

end
